theory Spec2Isabelle
  imports Main "HOL-Library.AList" "HOL-Library.Sublist"
begin

section \<open>Python values, exceptions and dictionaries\<close>

text \<open>
  Exceptions of the resource directory (\<open>aiocoap/cli/rd.py\<close>) are values. \<open>BadRequest\<close>
  carries its message. \<open>NameError\<close> is what Python raises when an unbound global name is
  evaluated, \<open>UnboundLocalError\<close> when a local variable is read before any assignment.
\<close>

datatype error =
    BadRequest string
  | NameError
  | UnboundLocalError
  | TypeError
  | ValueError
  | KeyError
  | IndexError
  | AttributeError
  | OtherError string

text \<open>Sequencing of a computation that may raise.\<close>

definition seq :: "error + 'a \<Rightarrow> ('a \<Rightarrow> error + 'b) \<Rightarrow> error + 'b" where
  "seq m f = (case m of Inl e \<Rightarrow> Inl e | Inr x \<Rightarrow> f x)"

text \<open>
  A query is the dictionary built by \<open>query_split\<close>: keys in arrival order, each with the
  list of its values; a value is \<open>None\<close> for a query item without \<open>=\<close>. Dictionaries
  are association lists in insertion order (\<open>map_of\<close> reads, \<open>AList.update\<close> assigns,
  \<open>AList.delete\<close> removes).
\<close>

type_synonym pyval = "string option"
type_synonym query = "(string \<times> pyval list) list"

definition split_eq :: "string \<Rightarrow> string \<times> pyval" where
  "split_eq q =
     (if CHR ''='' \<in> set q
      then (takeWhile (\<lambda>c. c \<noteq> CHR ''='') q, Some (tl (dropWhile (\<lambda>c. c \<noteq> CHR ''='') q)))
      else (q, None))"

definition setdefault_append :: "string \<Rightarrow> pyval \<Rightarrow> query \<Rightarrow> query" where
  "setdefault_append k v result =
     (case map_of result k of
        None \<Rightarrow> AList.update k [v] result
      | Some vs \<Rightarrow> AList.update k (vs @ [v]) result)"

definition query_split :: "string list \<Rightarrow> query" where
  "query_split uri_query =
     foldl (\<lambda>result q. case split_eq q of (k, v) \<Rightarrow> setdefault_append k v result) [] uri_query"

text \<open>
  \<open>pop_single_arg\<close> returns its result together with the query as it leaves it. The name
  \<open>BadRequest\<close> is not bound in the module (only \<open>error\<close> is imported), so the
  \<open>raise BadRequest(...)\<close> of the source raises \<open>NameError\<close>.
\<close>

definition pop_single_arg :: "query \<Rightarrow> string \<Rightarrow> (error + pyval) \<times> query" where
  "pop_single_arg query name =
     (case map_of query name of
        None \<Rightarrow> (Inr None, query)
      | Some vs \<Rightarrow>
          if length vs > 1 then (Inl NameError, query)
          else (case vs of
                  [] \<Rightarrow> (Inl IndexError, AList.delete name query)
                | v # _ \<Rightarrow> (Inr v, AList.delete name query)))"

text \<open>
  The builtin \<open>int\<close> applied to a popped value: \<open>None\<close> raises \<open>TypeError\<close>, a string
  that is no integer literal raises \<open>ValueError\<close>. The parser of literals itself is a
  parameter \<open>toint\<close> of the model.
\<close>

definition py_int :: "(string \<Rightarrow> int option) \<Rightarrow> pyval \<Rightarrow> error + int" where
  "py_int toint x =
     (case x of
        None \<Rightarrow> Inl TypeError
      | Some s \<Rightarrow> (case toint s of None \<Rightarrow> Inl ValueError | Some n \<Rightarrow> Inr n))"

text \<open>
  A decimal parser (optional minus sign, then digits), one instance of \<open>toint\<close>. It is
  narrower than Python's \<open>int\<close>, which also accepts a leading plus sign, surrounding
  white space and underscores between digits; it stands in for \<open>int\<close> on plain digit
  strings only.
\<close>

definition digit_val :: "char \<Rightarrow> nat option" where
  "digit_val c = (let n = (of_char c :: nat) in if 48 \<le> n \<and> n \<le> 57 then Some (n - 48) else None)"

fun dec_digits :: "nat \<Rightarrow> string \<Rightarrow> nat option" where
  "dec_digits acc [] = Some acc"
| "dec_digits acc (c # cs) =
     (case digit_val c of None \<Rightarrow> None | Some d \<Rightarrow> dec_digits (10 * acc + d) cs)"

definition dec_int :: "string \<Rightarrow> int option" where
  "dec_int s =
     (case s of
        [] \<Rightarrow> None
      | c # cs \<Rightarrow>
          if c = CHR ''-'' then (if cs = [] then None else map_option (\<lambda>n. - int n) (dec_digits 0 cs))
          else map_option int (dec_digits 0 s))"

text \<open>Python slices \<open>xs[a:]\<close> and \<open>xs[:b]\<close>; a negative bound counts from the end.\<close>

definition slice_from :: "int \<Rightarrow> 'a list \<Rightarrow> 'a list" where
  "slice_from a xs = (if a < 0 then drop (nat (int (length xs) + a)) xs else drop (nat a) xs)"

definition slice_to :: "int \<Rightarrow> 'a list \<Rightarrow> 'a list" where
  "slice_to b xs = (if b < 0 then take (nat (int (length xs) + b)) xs else take (nat b) xs)"

section \<open>Pagination\<close>

text \<open>
  The body of the \<open>try\<close> of \<open>_paginate\<close>. The candidates are a generator; forcing it with
  \<open>list(candidates)\<close> may raise, so they arrive as a computation.
\<close>

definition paginate_body ::
  "(string \<Rightarrow> int option) \<Rightarrow> (error + 'a list) \<Rightarrow> pyval \<Rightarrow> pyval \<Rightarrow> error + 'a list" where
  "paginate_body toint candidates page count =
     seq candidates (\<lambda>cs.
     seq (if page \<noteq> None
          then seq (py_int toint page) (\<lambda>p. seq (py_int toint count) (\<lambda>c. Inr (slice_from (p * c) cs)))
          else Inr cs) (\<lambda>cs1.
     if count \<noteq> None
     then seq (py_int toint count) (\<lambda>c. Inr (slice_to c cs1))
     else Inr cs1))"

definition paginate ::
  "(string \<Rightarrow> int option) \<Rightarrow> (error + 'a list) \<Rightarrow> query \<Rightarrow> (error + 'a list) \<times> query" where
  "paginate toint candidates query =
     (case pop_single_arg query ''page'' of
        (Inl e, q1) \<Rightarrow> (Inl e, q1)
      | (Inr page, q1) \<Rightarrow>
          (case pop_single_arg q1 ''count'' of
             (Inl e, q2) \<Rightarrow> (Inl e, q2)
           | (Inr count, q2) \<Rightarrow>
               (case paginate_body toint candidates page count of
                  Inl KeyError \<Rightarrow> (Inl (BadRequest ''page requires count, and both must be ints''), q2)
                | Inl ValueError \<Rightarrow> (Inl (BadRequest ''page requires count, and both must be ints''), q2)
                | Inl e \<Rightarrow> (Inl e, q2)
                | Inr cs \<Rightarrow> (Inr cs, q2))))"

section \<open>Links\<close>

text \<open>
  Modelled from the spec: the \<open>Link\<close> class of \<open>aiocoap.util.linkformat\<close> (its source is
  not part of the files at hand) is a plain value, an href with an ordered multimap of
  attributes. \<open>'anchor' in l\<close> holds when an attribute pair with key \<open>anchor\<close> is present,
  and \<open>l.anchor\<close> reads the value of the first such pair.
\<close>

record link =
  href :: string
  attr_pairs :: "(string \<times> pyval) list"

definition link_contains :: "string \<Rightarrow> link \<Rightarrow> bool" where
  "link_contains name l = (name \<in> fst ` set (attr_pairs l))"

definition link_getattr :: "string \<Rightarrow> link \<Rightarrow> error + pyval" where
  "link_getattr name l =
     (case map_of (attr_pairs l) name of None \<Rightarrow> Inl AttributeError | Some v \<Rightarrow> Inr v)"

text \<open>
  A call \<open>Link(href=..., attr_pairs=..., **kwargs)\<close> with keyword attributes is kept as
  the arguments it was made with.
\<close>

record link_call =
  call_href :: string
  call_attr_pairs :: "(string \<times> pyval) list"
  call_kwargs :: "(string \<times> pyval) list"

text \<open>
  \<open>urllib.parse.urljoin\<close> on two strings is a parameter of the model (named \<open>join\<close>
  below). Called with \<open>None\<close> for the URL, the library returns \<open>None\<close> when the base is
  empty and the base otherwise (its first two lines).
\<close>

definition urljoin :: "(string \<Rightarrow> string \<Rightarrow> string) \<Rightarrow> string \<Rightarrow> pyval \<Rightarrow> pyval" where
  "urljoin join b url =
     (case url of
        Some u \<Rightarrow> Some (join b u)
      | None \<Rightarrow> if b = [] then None else Some b)"

section \<open>Registrations\<close>

text \<open>
  The expiry timer is the task \<open>asyncio.Task(longwait(delay, self.delete))\<close>: created at
  some time, sleeping for \<open>delay\<close> seconds, cancellable.
\<close>

record task =
  created :: int
  delay :: int
  cancelled :: bool

type_synonym key = "pyval \<times> pyval"
type_synonym remote = "string option"

text \<open>
  A \<open>Registration\<close> object. \<open>delete_cb\<close> holds the variables \<open>path\<close> and \<open>key\<close> captured
  by the closure \<open>delete\<close> of \<open>initialize_endpoint\<close>. The attributes \<open>base\<close> and
  \<open>timeout\<close> do not exist before \<open>update_params\<close> assigns them (\<open>None\<close> here).
  \<open>network_remote.uri\<close> is \<open>Some\<close> URI, or \<open>None\<close> where the property raises
  \<open>AnonymousHost\<close>.
\<close>

record registration =
  path :: "string list"
  links :: "link list"
  delete_cb :: "string list \<times> key"
  registration_parameters :: query
  lt :: int
  base_is_explicit :: bool
  base :: "string option"
  timeout :: "task option"

definition grace_period :: int where
  "grace_period = 15"

fun join_slash :: "string list \<Rightarrow> string" where
  "join_slash [] = []"
| "join_slash [x] = x"
| "join_slash (x # y # ys) = x @ ''/'' @ join_slash (y # ys)"

definition reg_href :: "registration \<Rightarrow> string" where
  "reg_href r = ''/'' @ join_slash (path r)"

text \<open>A subscriber acts on some state \<open>'w\<close> outside the directory, and may raise.\<close>

type_synonym 'w callback = "'w \<Rightarrow> error option \<times> 'w"

text \<open>\<open>_set_timeout\<close> and \<open>refresh_timeout\<close>, at time \<open>now\<close>.\<close>

definition set_timeout :: "int \<Rightarrow> registration \<Rightarrow> registration" where
  "set_timeout now r = r\<lparr>timeout := Some \<lparr>created = now, delay = lt r + grace_period, cancelled = False\<rparr>\<rparr>"

definition refresh_timeout :: "int \<Rightarrow> registration \<Rightarrow> error + registration" where
  "refresh_timeout now r =
     (case timeout r of
        None \<Rightarrow> Inl AttributeError
      | Some t \<Rightarrow> Inr (set_timeout now r))"

text \<open>
  \<open>update_params\<close>, first part: the three checks. The result is the local variable
  \<open>network_base\<close>, \<open>None\<close> where the source leaves it unbound.
\<close>

definition update_params_check :: "remote \<Rightarrow> query \<Rightarrow> bool \<Rightarrow> registration \<Rightarrow> error + string option" where
  "update_params_check network_remote params is_initial r =
     (if \<exists>k \<in> set (map fst params). k \<in> {''ep'', ''d''}
      then Inl (BadRequest ''Parameters 'd' and 'ep' can not be updated'')
      else if \<exists>k \<in> set (map fst params). k \<in> {''page'', ''count'', ''rt'', ''href'', ''anchor''}
      then Inl (BadRequest ''Unsuitable parameter for registration'')
      else if (is_initial \<or> \<not> base_is_explicit r) \<and> ''base'' \<notin> set (map fst params)
      then (case network_remote of
              None \<Rightarrow> Inl (BadRequest ''explicit base required'')
            | Some uri \<Rightarrow> Inr (Some uri))
      else Inr None)"

text \<open>
  Second part: \<open>set_lt\<close> and \<open>set_base\<close> are read from the query ("Don't act while still
  checking"). Only a \<open>ValueError\<close> of \<open>int\<close> is turned into \<open>BadRequest\<close>.
\<close>

definition update_params_parse ::
  "(string \<Rightarrow> int option) \<Rightarrow> query \<Rightarrow> error + (int option \<times> pyval \<times> query)" where
  "update_params_parse toint params =
     seq (if ''lt'' \<in> set (map fst params)
          then (case pop_single_arg params ''lt'' of
                  (Inl e, q) \<Rightarrow> Inl e
                | (Inr v, q) \<Rightarrow>
                    (case py_int toint v of
                       Inl ValueError \<Rightarrow> Inl (BadRequest ''lt must be numeric'')
                     | Inl e \<Rightarrow> Inl e
                     | Inr n \<Rightarrow> Inr (Some n, q)))
          else Inr (None, params)) (\<lambda>(set_lt, q1).
     if ''base'' \<in> set (map fst q1)
     then (case pop_single_arg q1 ''base'' of
             (Inl e, q) \<Rightarrow> Inl e
           | (Inr v, q) \<Rightarrow> Inr (set_lt, v, q))
     else Inr (set_lt, None, q1))"

text \<open>
  Third part: the assignments, one function for each of the four \<open>if\<close> statements of the
  source, in their order. The boolean is \<open>actual_change\<close>. Reading \<open>self.base\<close> before it
  exists raises \<open>AttributeError\<close>, reading \<open>network_base\<close> where it is unbound raises
  \<open>UnboundLocalError\<close>; an exception raised here leaves the assignments made so far in
  place.
\<close>

definition dict_update :: "query \<Rightarrow> query \<Rightarrow> query" where
  "dict_update d other = foldl (\<lambda>acc (k, v). AList.update k v acc) d other"

definition apply_lt :: "int option \<Rightarrow> registration \<times> bool \<Rightarrow> registration \<times> bool" where
  "apply_lt set_lt rc =
     (case rc of (r, actual_change) \<Rightarrow>
        (case set_lt of
           None \<Rightarrow> (r, actual_change)
         | Some n \<Rightarrow> if lt r \<noteq> n then (r\<lparr>lt := n\<rparr>, True) else (r, actual_change)))"

definition apply_base :: "bool \<Rightarrow> pyval \<Rightarrow> registration \<times> bool \<Rightarrow> error option \<times> registration \<times> bool" where
  "apply_base is_initial set_base rc =
     (case rc of (r, actual_change) \<Rightarrow>
        if set_base \<noteq> None \<and> \<not> is_initial \<and> base r = None then (Some AttributeError, r, actual_change)
        else if set_base \<noteq> None \<and> (is_initial \<or> base r \<noteq> set_base)
        then (None, r\<lparr>base := set_base, base_is_explicit := True\<rparr>, True)
        else (None, r, actual_change))"

definition apply_network_base ::
  "bool \<Rightarrow> string option \<Rightarrow> registration \<times> bool \<Rightarrow> error option \<times> registration \<times> bool" where
  "apply_network_base is_initial network_base rc =
     (case rc of (r, actual_change) \<Rightarrow>
        if \<not> base_is_explicit r \<and> \<not> is_initial \<and> base r = None then (Some AttributeError, r, actual_change)
        else if \<not> base_is_explicit r \<and> network_base = None then (Some UnboundLocalError, r, actual_change)
        else if \<not> base_is_explicit r \<and> (is_initial \<or> base r \<noteq> network_base)
        then (None, r\<lparr>base := network_base\<rparr>, True)
        else (None, r, actual_change))"

definition apply_parameters :: "query \<Rightarrow> registration \<times> bool \<Rightarrow> registration \<times> bool" where
  "apply_parameters params rc =
     (case rc of (r, actual_change) \<Rightarrow>
        if \<exists>(k, v) \<in> set params. Some v \<noteq> map_of (registration_parameters r) k
        then (r\<lparr>registration_parameters := dict_update (registration_parameters r) params\<rparr>, True)
        else (r, actual_change))"

definition update_params_apply ::
  "bool \<Rightarrow> string option \<Rightarrow> int option \<Rightarrow> pyval \<Rightarrow> query \<Rightarrow> registration
     \<Rightarrow> error option \<times> registration \<times> bool" where
  "update_params_apply is_initial network_base set_lt set_base params r0 =
     (case apply_base is_initial set_base (apply_lt set_lt (r0, is_initial)) of
        (Some e, r2, c2) \<Rightarrow> (Some e, r2, c2)
      | (None, r2, c2) \<Rightarrow>
          (case apply_network_base is_initial network_base (r2, c2) of
             (Some e, r3, c3) \<Rightarrow> (Some e, r3, c3)
           | (None, r3, c3) \<Rightarrow>
               (case apply_parameters params (r3, c3) of (r4, c4) \<Rightarrow> (None, r4, c4))))"

text \<open>
  The whole of \<open>update_params\<close>, at time \<open>now\<close>, with \<open>update_cb\<close> the callable given to the
  Registration. The result is the exception raised, if any, the Registration and the
  subscribers' state as the call leaves them.
\<close>

definition update_params ::
  "(string \<Rightarrow> int option) \<Rightarrow> 'w callback \<Rightarrow> int \<Rightarrow> remote \<Rightarrow> query \<Rightarrow> bool
     \<Rightarrow> registration \<times> 'w \<Rightarrow> error option \<times> registration \<times> 'w" where
  "update_params toint update_cb now network_remote params is_initial rw =
     (case rw of (r, w) \<Rightarrow>
       (case update_params_check network_remote params is_initial r of
          Inl e \<Rightarrow> (Some e, r, w)
        | Inr network_base \<Rightarrow>
           (case update_params_parse toint params of
              Inl e \<Rightarrow> (Some e, r, w)
            | Inr (set_lt, set_base, q) \<Rightarrow>
               (case update_params_apply is_initial network_base set_lt set_base q r of
                  (Some e, r', c) \<Rightarrow> (Some e, r', w)
                | (None, r', actual_change) \<Rightarrow>
                   (case (if is_initial then Inr (set_timeout now r') else refresh_timeout now r') of
                      Inl e \<Rightarrow> (Some e, r', w)
                    | Inr r'' \<Rightarrow>
                        if actual_change
                        then (case update_cb w of (e, w') \<Rightarrow> (e, r'', w'))
                        else (None, r'', w))))))"

text \<open>\<open>get_host_link\<close> and \<open>get_based_links\<close>; both read the attribute \<open>base\<close>.\<close>

definition get_host_link :: "registration \<Rightarrow> error + link_call" where
  "get_host_link r =
     (let attr_pairs = concat (map (\<lambda>(k, values). map (\<lambda>v. (k, v)) values) (registration_parameters r))
      in case base r of
           None \<Rightarrow> Inl AttributeError
         | Some b \<Rightarrow>
             Inr \<lparr>call_href = reg_href r, call_attr_pairs = attr_pairs,
                  call_kwargs = [(''base'', Some b), (''rt'', Some ''coire.rd-ep'')]\<rparr>)"

definition based_link :: "(string \<Rightarrow> string \<Rightarrow> string) \<Rightarrow> string \<Rightarrow> link \<Rightarrow> error + link" where
  "based_link join b l =
     seq (if link_contains ''anchor'' l
          then seq (link_getattr ''anchor'' l) (\<lambda>anchor.
                 Inr (filter (\<lambda>(k, v). k \<noteq> ''anchor'') (attr_pairs l) @ [(''anchor'', urljoin join b anchor)]))
          else Inr (attr_pairs l @ [(''anchor'', Some b)])) (\<lambda>data.
     Inr \<lparr>href = join b (href l), attr_pairs = data\<rparr>)"

fun map_e :: "('a \<Rightarrow> error + 'b) \<Rightarrow> 'a list \<Rightarrow> error + 'b list" where
  "map_e f [] = Inr []"
| "map_e f (x # xs) = seq (f x) (\<lambda>y. seq (map_e f xs) (\<lambda>ys. Inr (y # ys)))"

definition get_based_links :: "(string \<Rightarrow> string \<Rightarrow> string) \<Rightarrow> registration \<Rightarrow> error + link list" where
  "get_based_links join r =
     (case base r of
        None \<Rightarrow> (if links r = [] then Inr [] else Inl AttributeError)
      | Some b \<Rightarrow> map_e (based_link join b) (links r))"

section \<open>The store of registrations\<close>

text \<open>
  \<open>CommonRD\<close>: the two dictionaries hold references to Registration objects, \<open>heap\<close> holds
  the objects, \<open>next_ref\<close> is the reference the next object gets. \<open>world\<close> is the state the
  subscribers act on.
\<close>

record 'w common_rd =
  by_key :: "(key \<times> nat) list"
  by_path :: "(string list \<times> nat) list"
  updated_state_cb :: "'w callback list"
  heap :: "nat \<Rightarrow> registration option"
  next_ref :: nat
  world :: 'w

definition entity_prefix :: "string list" where
  "entity_prefix = [''reg'']"

definition register_change_callback :: "'w callback \<Rightarrow> 'w common_rd \<Rightarrow> 'w common_rd" where
  "register_change_callback callback s = s\<lparr>updated_state_cb := updated_state_cb s @ [callback]\<rparr>"

text \<open>\<open>_updated_state\<close>: the loop over the subscribers has no exception handler.\<close>

fun updated_state :: "'w callback list \<Rightarrow> 'w callback" where
  "updated_state [] w = (None, w)"
| "updated_state (cb # cbs) w =
     (case cb w of
        (Some e, w') \<Rightarrow> (Some e, w')
      | (None, w') \<Rightarrow> updated_state cbs w')"

text \<open>\<open>str\<close> of a non-negative integer, and \<open>_new_pathtail\<close> searching upwards from \<open>i\<close>.\<close>

definition digit_char :: "nat \<Rightarrow> char" where
  "digit_char d = char_of (48 + d)"

fun str_nat :: "nat \<Rightarrow> string" where
  "str_nat n = (if n < 10 then [digit_char n] else str_nat (n div 10) @ [digit_char (n mod 10)])"

declare str_nat.simps [simp del]

text \<open>A subscriber that appends its number to a log and then, if told so, raises.\<close>

definition subscriber :: "bool \<Rightarrow> nat \<Rightarrow> nat list callback" where
  "subscriber fails i w = (if fails then Some (OtherError ''subscriber failed'') else None, w @ [i])"

lemma digit_char_inj: "a < 10 \<Longrightarrow> b < 10 \<Longrightarrow> digit_char a = digit_char b \<Longrightarrow> a = b"
proof -
  assume a: "a < 10" and b: "b < 10" and e: "digit_char a = digit_char b"
  from e have "(of_char (char_of (48 + a) :: char) :: nat) = of_char (char_of (48 + b) :: char)"
    by (simp add: digit_char_def)
  then have "(48 + a) mod 256 = (48 + b) mod 256"
    by (simp only: of_char_of)
  with a b show "a = b" by simp
qed

lemma str_nat_nonempty: "str_nat n \<noteq> []"
  by (subst str_nat.simps) simp

lemma str_nat_inj: "str_nat n = str_nat m \<Longrightarrow> n = m"
proof (induction n arbitrary: m rule: str_nat.induct)
  case (1 n)
  show ?case
  proof (cases "n < 10")
    case True
    then have sn: "str_nat n = [digit_char n]" by (subst str_nat.simps) simp
    show ?thesis
    proof (cases "m < 10")
      case mt: True
      then have "str_nat m = [digit_char m]" by (subst str_nat.simps) simp
      with sn "1.prems" True mt show ?thesis by (simp add: digit_char_inj)
    next
      case mf: False
      then have "str_nat m = str_nat (m div 10) @ [digit_char (m mod 10)]"
        by (subst str_nat.simps) simp
      with sn "1.prems" str_nat_nonempty [of "m div 10"] show ?thesis by simp
    qed
  next
    case False
    then have sn: "str_nat n = str_nat (n div 10) @ [digit_char (n mod 10)]"
      by (subst str_nat.simps) simp
    show ?thesis
    proof (cases "m < 10")
      case mt: True
      then have "str_nat m = [digit_char m]" by (subst str_nat.simps) simp
      with sn "1.prems" str_nat_nonempty [of "n div 10"] show ?thesis by simp
    next
      case mf: False
      then have sm: "str_nat m = str_nat (m div 10) @ [digit_char (m mod 10)]"
        by (subst str_nat.simps) simp
      from sn sm "1.prems" have a: "str_nat (n div 10) = str_nat (m div 10)"
        and b: "digit_char (n mod 10) = digit_char (m mod 10)" by simp_all
      from "1.IH" [OF False a] have c: "n div 10 = m div 10" .
      from b have d: "n mod 10 = m mod 10" by (simp add: digit_char_inj)
      from c d show ?thesis by (metis div_mult_mod_eq)
    qed
  qed
qed

text \<open>
  \<open>_new_pathtail\<close>: the loop \<open>for i in itertools.count(1)\<close>, from \<open>i\<close> on. It ends because
  the dictionary is finite and \<open>str\<close> is injective.
\<close>

function new_pathtail_from :: "nat \<Rightarrow> (string list \<times> nat) list \<Rightarrow> string list" where
  "new_pathtail_from i bp =
     (if map_of bp [str_nat i, ''''] \<noteq> None then new_pathtail_from (Suc i) bp else [str_nat i, ''''])"
  by pat_completeness auto
termination
proof (relation "measure (\<lambda>(i, bp). card {p \<in> fst ` set bp. \<exists>j\<ge>i. p = [str_nat j, '''']})")
  show "wf (measure (\<lambda>(i, bp). card {p \<in> fst ` set bp. \<exists>j\<ge>i. p = [str_nat j, '''']}))"
    by simp
next
  fix i :: nat and bp :: "(string list \<times> nat) list"
  assume "map_of bp [str_nat i, ''''] \<noteq> None"
  then have mem: "[str_nat i, ''''] \<in> fst ` set bp"
    by (simp add: map_of_eq_None_iff)
  let ?A = "{p \<in> fst ` set bp. \<exists>j\<ge>Suc i. p = [str_nat j, '''']}"
  let ?B = "{p \<in> fst ` set bp. \<exists>j\<ge>i. p = [str_nat j, '''']}"
  have fin: "finite ?B" by simp
  have sub: "?A \<subseteq> ?B"
  proof
    fix p
    assume "p \<in> ?A"
    then obtain j where pm: "p \<in> fst ` set bp" and ji: "Suc i \<le> j" and pj: "p = [str_nat j, '''']"
      by blast
    from ji have "i \<le> j" by simp
    with pm pj show "p \<in> ?B" by blast
  qed
  have inB: "[str_nat i, ''''] \<in> ?B" using mem by auto
  have notA: "[str_nat i, ''''] \<notin> ?A"
  proof
    assume "[str_nat i, ''''] \<in> ?A"
    then obtain j where "j \<ge> Suc i" and "str_nat i = str_nat j" by auto
    then show False using str_nat_inj [of i j] by simp
  qed
  from sub inB notA have "?A \<subset> ?B" by blast
  with fin have "card ?A < card ?B" by (rule psubset_card_mono)
  then show "((Suc i, bp), (i, bp)) \<in> measure (\<lambda>(i, bp). card {p \<in> fst ` set bp. \<exists>j\<ge>i. p = [str_nat j, '''']})"
    by simp
qed

declare new_pathtail_from.simps [simp del]

definition new_pathtail :: "'w common_rd \<Rightarrow> string list" where
  "new_pathtail s = new_pathtail_from 1 (by_path s)"

text \<open>
  The closure \<open>delete\<close> of \<open>initialize_endpoint\<close>, with its captured \<open>path\<close> and \<open>key\<close>:
  two \<open>del\<close> statements, each raising \<open>KeyError\<close> on a missing key.
\<close>

definition delete_callback :: "string list \<times> key \<Rightarrow> 'w common_rd \<Rightarrow> error option \<times> 'w common_rd" where
  "delete_callback pk s =
     (case pk of (p, k) \<Rightarrow>
        if map_of (by_path s) p = None then (Some KeyError, s)
        else let s1 = s\<lparr>by_path := AList.delete p (by_path s)\<rparr>
             in if map_of (by_key s1) k = None then (Some KeyError, s1)
                else (None, s1\<lparr>by_key := AList.delete k (by_key s1)\<rparr>))"

text \<open>
  \<open>Registration.delete\<close> on the object with reference \<open>i\<close>: cancel the timer, notify,
  run the delete callback. The expiry timer, when it fires, calls this same method.
\<close>

definition registration_delete :: "nat \<Rightarrow> 'w common_rd \<Rightarrow> error option \<times> 'w common_rd" where
  "registration_delete i s =
     (case heap s i of
        None \<Rightarrow> (Some (OtherError ''no such object''), s)
      | Some r \<Rightarrow>
          (case timeout r of
             None \<Rightarrow> (Some AttributeError, s)
           | Some t \<Rightarrow>
               (let s1 = s\<lparr>heap := (heap s)(i \<mapsto> r\<lparr>timeout := Some (t\<lparr>cancelled := True\<rparr>)\<rparr>)\<rparr>
                in (case updated_state (updated_state_cb s1) (world s1) of
                      (Some e, w) \<Rightarrow> (Some e, s1\<lparr>world := w\<rparr>)
                    | (None, w) \<Rightarrow> delete_callback (delete_cb r) (s1\<lparr>world := w\<rparr>)))))"

text \<open>
  \<open>Registration.__init__\<close>, up to its call of \<open>update_params\<close>, and
  \<open>initialize_endpoint\<close>. The new object takes the reference \<open>next_ref\<close>; it exists (its
  timer refers to it) even when the constructor raises.
\<close>

definition registration_new :: "query \<Rightarrow> string list \<Rightarrow> string list \<times> key \<Rightarrow> registration" where
  "registration_new static_registration_parameters p dcb =
     \<lparr>path = p, links = [], delete_cb = dcb,
      registration_parameters = static_registration_parameters,
      lt = 90000, base_is_explicit = False, base = None, timeout = None\<rparr>"

definition initialize_endpoint ::
  "(string \<Rightarrow> int option) \<Rightarrow> int \<Rightarrow> remote \<Rightarrow> query \<Rightarrow> 'w common_rd \<Rightarrow> (error + nat) \<times> 'w common_rd" where
  "initialize_endpoint toint now network_remote params s =
     (let ep_and_d = filter (\<lambda>(k, v). k \<in> {''ep'', ''d''}) params
      in (case pop_single_arg params ''ep'' of
            (Inl e, q1) \<Rightarrow> (Inl e, s)
          | (Inr ep, q1) \<Rightarrow>
             (if ep = None then (Inl (BadRequest ''ep argument missing''), s)
              else (case pop_single_arg q1 ''d'' of
                      (Inl e, q2) \<Rightarrow> (Inl e, s)
                    | (Inr d, q2) \<Rightarrow>
                       (let key = (ep, d)
                        in (case (case map_of (by_key s) key of
                                    None \<Rightarrow> (None, new_pathtail s, s)
                                  | Some oldreg \<Rightarrow>
                                      (case heap s oldreg of
                                         None \<Rightarrow> (Some (OtherError ''no such object''), [], s)
                                       | Some old \<Rightarrow>
                                           (case registration_delete oldreg s of
                                              (e, s') \<Rightarrow> (e, drop (length entity_prefix) (path old), s')))) of
                              (Some e, p, s1) \<Rightarrow> (Inl e, s1)
                            | (None, p, s1) \<Rightarrow>
                               (let reg = next_ref s1;
                                    r0 = registration_new ep_and_d (entity_prefix @ p) (p, key)
                                in (case update_params toint (updated_state (updated_state_cb s1)) now
                                           network_remote q2 True (r0, world s1) of
                                      (Some e, r, w) \<Rightarrow>
                                        (Inl e, s1\<lparr>heap := (heap s1)(reg \<mapsto> r), next_ref := Suc reg, world := w\<rparr>)
                                    | (None, r, w) \<Rightarrow>
                                        (Inr reg, s1\<lparr>heap := (heap s1)(reg \<mapsto> r), next_ref := Suc reg, world := w,
                                                      by_key := AList.update key reg (by_key s1),
                                                      by_path := AList.update p reg (by_path s1)\<rparr>)))))))))"

text \<open>\<open>get_endpoints\<close>: the Registration objects in \<open>_by_key\<close>, in dictionary order.\<close>

definition get_endpoints :: "'w common_rd \<Rightarrow> registration list" where
  "get_endpoints s = List.map_filter (\<lambda>(k, i). heap s i) (by_key s)"

definition empty_rd :: "'w \<Rightarrow> 'w common_rd" where
  "empty_rd w = \<lparr>by_key = [], by_path = [], updated_state_cb = [], heap = (\<lambda>i. None), next_ref = 0, world = w\<rparr>"

text \<open>
  A resolver for references that are absolute paths (scheme and authority of the base,
  then the reference), one instance of \<open>join\<close>. It stands in for \<open>urljoin\<close> at such
  references only; a relative-path reference it merely appends to the base, where
  \<open>urljoin\<close> replaces the last segment.
\<close>

definition join_root :: "string \<Rightarrow> string \<Rightarrow> string" where
  "join_root b u =
     (let scheme = takeWhile (\<lambda>c. c \<noteq> CHR ''/'') b;
          authority = takeWhile (\<lambda>c. c \<noteq> CHR ''/'') (drop (length scheme + 2) b)
      in if u \<noteq> [] \<and> hd u = CHR ''/'' then scheme @ ''//'' @ authority @ u else b @ u)"

text \<open>
  The store after endpoint \<open>a\<close> registered once (its Registration is object 0), and after
  it registered a second time (object 1 replaces object 0).
\<close>

definition rd_once :: "nat list common_rd" where
  "rd_once = snd (initialize_endpoint dec_int 0 (Some ''coap://node1'') [(''ep'', [Some ''a''])]
                   (register_change_callback (subscriber False 7) (empty_rd [])))"

definition rd_twice :: "nat list common_rd" where
  "rd_twice = snd (initialize_endpoint dec_int 5 (Some ''coap://node1'') [(''ep'', [Some ''a''])] rd_once)"

text \<open>
  A live Registration for the examples: endpoint \<open>a\<close> at \<open>/reg/1/\<close>, default lifetime, base
  taken from the origin \<open>coap://node1\<close>.
\<close>

definition reg_example :: registration where
  "reg_example =
     \<lparr>path = [''reg'', ''1'', ''''], links = [], delete_cb = ([''1'', ''''], (Some ''a'', None)),
      registration_parameters = [(''ep'', [Some ''a''])], lt = 90000, base_is_explicit = False,
      base = Some ''coap://node1'',
      timeout = Some \<lparr>created = 0, delay = 90015, cancelled = False\<rparr>\<rparr>"

text \<open>
  What \<open>initialize_endpoint\<close> and the delete callbacks maintain of the two dictionaries:
  every entry refers to an allocated object whose delete callback holds the entry's own
  key and path, whose path is the prefix followed by that path tail, and which is entered
  in the other dictionary too.
\<close>

definition rd_inv :: "'w common_rd \<Rightarrow> bool" where
  "rd_inv s =
     ((\<forall>(k, i) \<in> set (by_key s). map_of (by_key s) k = Some i \<longrightarrow>
         i < next_ref s \<and>
         (case heap s i of
            None \<Rightarrow> False
          | Some r \<Rightarrow> snd (delete_cb r) = k \<and> path r = entity_prefix @ fst (delete_cb r)
                      \<and> map_of (by_path s) (fst (delete_cb r)) = Some i))
    \<and> (\<forall>(p, i) \<in> set (by_path s). map_of (by_path s) p = Some i \<longrightarrow>
         i < next_ref s \<and>
         (case heap s i of
            None \<Rightarrow> False
          | Some r \<Rightarrow> fst (delete_cb r) = p \<and> map_of (by_key s) (snd (delete_cb r)) = Some i)))"

section \<open>Lookup\<close>

text \<open>
  \<open>any\<close> over a generator whose elements may raise, the chain of \<open>if\<close> conditions of nested
  generators, \<open>or\<close> and \<open>and\<close> (the right operand counts only where Python evaluates it),
  and \<open>str.split()\<close> on white space.
\<close>

fun any_e :: "('a \<Rightarrow> error + bool) \<Rightarrow> 'a list \<Rightarrow> error + bool" where
  "any_e p [] = Inr False"
| "any_e p (x # xs) = (case p x of Inl e \<Rightarrow> Inl e | Inr b \<Rightarrow> if b then Inr True else any_e p xs)"

fun all_e :: "('a \<Rightarrow> error + bool) \<Rightarrow> 'a list \<Rightarrow> error + bool" where
  "all_e p [] = Inr True"
| "all_e p (x # xs) = (case p x of Inl e \<Rightarrow> Inl e | Inr b \<Rightarrow> if b then all_e p xs else Inr False)"

fun filter_e :: "('a \<Rightarrow> error + bool) \<Rightarrow> 'a list \<Rightarrow> error + 'a list" where
  "filter_e p [] = Inr []"
| "filter_e p (x # xs) =
     (case p x of
        Inl e \<Rightarrow> Inl e
      | Inr b \<Rightarrow> (case filter_e p xs of Inl e \<Rightarrow> Inl e | Inr ys \<Rightarrow> Inr (if b then x # ys else ys)))"

definition or_e :: "error + bool \<Rightarrow> error + bool \<Rightarrow> error + bool" where
  "or_e a b = (case a of Inl e \<Rightarrow> Inl e | Inr x \<Rightarrow> if x then Inr True else b)"

definition and_e :: "error + bool \<Rightarrow> error + bool \<Rightarrow> error + bool" where
  "and_e a b = (case a of Inl e \<Rightarrow> Inl e | Inr x \<Rightarrow> if x then b else Inr False)"

definition is_space :: "char \<Rightarrow> bool" where
  "is_space c = (let n = (of_char c :: nat) in (9 \<le> n \<and> n \<le> 13) \<or> (28 \<le> n \<and> n \<le> 32) \<or> n = 133 \<or> n = 160)"

fun split_ws :: "string \<Rightarrow> string \<Rightarrow> string list" where
  "split_ws tok [] = (if tok = [] then [] else [tok])"
| "split_ws tok (c # cs) =
     (if is_space c then (if tok = [] then split_ws [] cs else tok # split_ws [] cs)
      else split_ws (tok @ [c]) cs)"

definition py_split :: "string \<Rightarrow> string list" where
  "py_split s = split_ws [] s"

text \<open>
  The three lambdas bound to \<open>matches\<close>. A lambda takes, before its argument \<open>x\<close>, the value
  the variable \<open>search_value\<close> has when the lambda is called: \<open>lambda x: x == search_value\<close>
  reads the variable then, while \<open>start=search_value[:-1]\<close> and \<open>original_matches=matches\<close>
  are default arguments, fixed when the lambda is made.
\<close>

type_synonym matcher = "pyval \<Rightarrow> pyval \<Rightarrow> error + bool"

definition starts_with :: "string \<Rightarrow> matcher" where
  "starts_with start sv x = (case x of None \<Rightarrow> Inl AttributeError | Some s \<Rightarrow> Inr (prefix start s))"

definition equals_search_value :: matcher where
  "equals_search_value sv x = Inr (x = sv)"

definition any_token :: "matcher \<Rightarrow> matcher" where
  "any_token original_matches sv x =
     (case x of
        None \<Rightarrow> Inl AttributeError
      | Some s \<Rightarrow> any_e (\<lambda>v. original_matches sv (Some v)) (py_split s))"

text \<open>
  The filter loop, the same text in both \<open>render_get\<close> methods. Its local variables are
  \<open>search_key\<close>, \<open>search_value\<close> and \<open>matches\<close>; \<open>candidates\<close> becomes a chain of generator
  expressions, of which \<open>stages\<close> records the kind (the \<open>href\<close> one or the general one) in
  the order they were wrapped around the candidates. A generator expression evaluates its
  condition only when it is iterated, which is in \<open>_paginate\<close>, after the loop; what it
  reads of \<open>search_key\<close> and \<open>matches\<close> is what the loop left there. Before their first
  assignment the variables are unbound; no stage exists then.
\<close>

datatype stage = HrefStage | AttrStage

record lookup_locals =
  search_key :: string
  search_value :: pyval
  matches :: matcher
  stages :: "stage list"

definition lookup_value_step :: "lookup_locals \<Rightarrow> pyval \<Rightarrow> lookup_locals" where
  "lookup_value_step L v =
     (let m1 = (case v of
                  Some s \<Rightarrow> if s \<noteq> [] \<and> last s = CHR ''*'' then starts_with (butlast s) else equals_search_value
                | None \<Rightarrow> equals_search_value);
          m2 = (if search_key L \<in> {''if'', ''rt''} then any_token m1 else m1);
          L1 = L\<lparr>search_value := v, matches := m2\<rparr>
      in if search_key L = ''href''
         then L1\<lparr>stages := stages L1 @ [HrefStage]\<rparr>
         else L1\<lparr>stages := stages L1 @ [AttrStage]\<rparr>)"

definition lookup_key_step :: "lookup_locals \<Rightarrow> string \<times> pyval list \<Rightarrow> lookup_locals" where
  "lookup_key_step L kv =
     (case kv of (k, search_values) \<Rightarrow>
        let L1 = L\<lparr>search_key := k\<rparr>
        in if k \<in> {''page'', ''count''} then L1 else foldl lookup_value_step L1 search_values)"

definition lookup_loop :: "query \<Rightarrow> lookup_locals" where
  "lookup_loop query =
     foldl lookup_key_step \<lparr>search_key = [], search_value = None, matches = equals_search_value, stages = []\<rparr> query"

text \<open>
  Forcing the chain: each candidate of the innermost iterable passes through the
  conditions of the stages in order. \<open>cond\<close> evaluates the condition of a stage.
\<close>

definition lookup_filter ::
  "(lookup_locals \<Rightarrow> stage \<Rightarrow> 'c \<Rightarrow> error + bool) \<Rightarrow> query \<Rightarrow> 'c list \<Rightarrow> error + 'c list" where
  "lookup_filter cond query cands =
     (let L = lookup_loop query
      in filter_e (\<lambda>c. all_e (\<lambda>st. cond L st c) (stages L)) cands)"

definition link_matches :: "link \<Rightarrow> string \<Rightarrow> (pyval \<Rightarrow> error + bool) \<Rightarrow> error + bool" where
  "link_matches l k condition = any_e (\<lambda>(k', v). if k' = k then condition v else Inr False) (attr_pairs l)"

definition parameter_matches :: "registration \<Rightarrow> string \<Rightarrow> (pyval \<Rightarrow> error + bool) \<Rightarrow> error + bool" where
  "parameter_matches e k condition =
     (case map_of (registration_parameters e) k of None \<Rightarrow> Inr False | Some xs \<Rightarrow> any_e condition xs)"

text \<open>The conditions of the two generator expressions of \<open>EndpointLookupInterface\<close>.\<close>

definition ep_condition ::
  "(string \<Rightarrow> string \<Rightarrow> string) \<Rightarrow> lookup_locals \<Rightarrow> stage \<Rightarrow> registration \<Rightarrow> error + bool" where
  "ep_condition join L st c =
     (let m = matches L (search_value L)
      in case st of
           HrefStage \<Rightarrow>
             or_e (m (Some (reg_href c)))
                  (seq (get_based_links join c) (any_e (\<lambda>r. m (Some (href r)))))
         | AttrStage \<Rightarrow>
             or_e (parameter_matches c (search_key L) m)
                  (seq (get_based_links join c) (any_e (\<lambda>r. link_matches r (search_key L) m))))"

text \<open>Those of \<open>ResourceLookupInterface\<close>, on pairs of an endpoint and one of its based links.\<close>

definition res_condition :: "lookup_locals \<Rightarrow> stage \<Rightarrow> registration \<times> link \<Rightarrow> error + bool" where
  "res_condition L st ec =
     (case ec of (e, c) \<Rightarrow>
        (let m = matches L (search_value L)
         in (case st of
               HrefStage \<Rightarrow> or_e (m (Some (href c))) (m (Some (reg_href e)))
             | AttrStage \<Rightarrow> or_e (link_matches c (search_key L) m) (parameter_matches e (search_key L) m))))"

definition res_candidates ::
  "(string \<Rightarrow> string \<Rightarrow> string) \<Rightarrow> registration list \<Rightarrow> error + (registration \<times> link) list" where
  "res_candidates join eps =
     seq (map_e (\<lambda>e. seq (get_based_links join e) (\<lambda>ls. Inr (map (Pair e) ls))) eps) (\<lambda>xss. Inr (concat xss))"

definition ep_filter ::
  "(string \<Rightarrow> string \<Rightarrow> string) \<Rightarrow> query \<Rightarrow> registration list \<Rightarrow> error + registration list" where
  "ep_filter join query eps = lookup_filter (ep_condition join) query eps"

definition res_filter ::
  "(string \<Rightarrow> string \<Rightarrow> string) \<Rightarrow> query \<Rightarrow> registration list \<Rightarrow> error + (registration \<times> link) list" where
  "res_filter join query eps = seq (res_candidates join eps) (lookup_filter res_condition query)"

text \<open>
  The two \<open>render_get\<close> methods, up to the encoding of the answer. The resource lookup
  answers Unauthorized to a remote that is no OSCORE address.
\<close>

definition endpoint_lookup_render_get ::
  "(string \<Rightarrow> int option) \<Rightarrow> (string \<Rightarrow> string \<Rightarrow> string) \<Rightarrow> query \<Rightarrow> 'w common_rd \<Rightarrow> error + link_call list" where
  "endpoint_lookup_render_get toint join query s =
     seq (fst (paginate toint (ep_filter join query (get_endpoints s)) query)) (map_e get_host_link)"

datatype lookup_answer = Unauthorized | LinkFormat "link list"

definition resource_lookup_render_get ::
  "(string \<Rightarrow> int option) \<Rightarrow> (string \<Rightarrow> string \<Rightarrow> string) \<Rightarrow> bool \<Rightarrow> query \<Rightarrow> 'w common_rd \<Rightarrow> error + lookup_answer" where
  "resource_lookup_render_get toint join remote_is_oscore query s =
     (if \<not> remote_is_oscore then Inr Unauthorized
      else seq (fst (paginate toint (seq (res_filter join query (get_endpoints s)) (\<lambda>ecs. Inr (map snd ecs))) query))
               (\<lambda>cs. Inr (LinkFormat cs)))"

text \<open>
  A candidate matches a value of a key when the query made of that one pair keeps it.
\<close>

definition pair_matches :: "(lookup_locals \<Rightarrow> stage \<Rightarrow> 'c \<Rightarrow> error + bool) \<Rightarrow> string \<Rightarrow> pyval \<Rightarrow> 'c \<Rightarrow> bool" where
  "pair_matches cond k v c = (lookup_filter cond [(k, [v])] [c] = Inr [c])"

text \<open>Two endpoints for the examples, with one link each.\<close>

definition ep_temp :: registration where
  "ep_temp =
     \<lparr>path = [''reg'', ''1'', ''''],
      links = [\<lparr>href = ''/a/b'', attr_pairs = [(''rt'', Some ''temperature-v2 other'')]\<rparr>],
      delete_cb = ([''1'', ''''], (Some ''node1'', None)),
      registration_parameters = [(''ep'', [Some ''node1'']), (''x'', [Some ''a''])],
      lt = 90000, base_is_explicit = True, base = Some ''coap://node1/'',
      timeout = Some \<lparr>created = 0, delay = 90015, cancelled = False\<rparr>\<rparr>"

definition ep_press :: registration where
  "ep_press =
     \<lparr>path = [''reg'', ''2'', ''''],
      links = [\<lparr>href = ''/b/a'', attr_pairs = [(''rt'', Some ''pressure'')]\<rparr>],
      delete_cb = ([''2'', ''''], (Some ''node2'', None)),
      registration_parameters = [(''ep'', [Some ''node2'']), (''x'', [Some ''b''])],
      lt = 90000, base_is_explicit = True, base = Some ''coap://node2/'',
      timeout = Some \<lparr>created = 0, delay = 90015, cancelled = False\<rparr>\<rparr>"

text \<open>The generator expression a key gets.\<close>

definition kind :: "string \<Rightarrow> stage" where
  "kind k = (if k = ''href'' then HrefStage else AttrStage)"

text \<open>
  The combination rule as the specification words it: a candidate is kept when every
  key other than \<open>page\<close> and \<open>count\<close> has at least one matching value.
\<close>

definition spec_keeps :: "(lookup_locals \<Rightarrow> stage \<Rightarrow> 'c \<Rightarrow> error + bool) \<Rightarrow> query \<Rightarrow> 'c \<Rightarrow> bool" where
  "spec_keeps cond query c =
     (\<forall>(k, vs) \<in> set query. k \<notin> {''page'', ''count''} \<longrightarrow> (\<exists>v \<in> set vs. pair_matches cond k v c))"

section \<open>Properties\<close>

subsection \<open>Pagination\<close>

lemma paginate_count_only:
  "map_of query ''page'' = None \<Longrightarrow> map_of query ''count'' = Some [Some c] \<Longrightarrow> toint c = Some n
   \<Longrightarrow> fst (paginate toint (Inr cs) query) = Inr (slice_to n cs)"
  by (simp add: paginate_def pop_single_arg_def paginate_body_def seq_def py_int_def)

lemma paginate_page_and_count:
  "map_of query ''page'' = Some [Some p] \<Longrightarrow> map_of query ''count'' = Some [Some c]
   \<Longrightarrow> toint p = Some m \<Longrightarrow> toint c = Some n
   \<Longrightarrow> fst (paginate toint (Inr cs) query) = Inr (slice_to n (slice_from (m * n) cs))"
  by (simp add: paginate_def pop_single_arg_def paginate_body_def seq_def py_int_def
      delete_notin_dom map_of_delete)

text \<open>
  Claim C2. A query with \<open>page\<close> and no \<open>count\<close> should fail with BadRequest. In the code,
  \<open>int(count)\<close> is then \<open>int(None)\<close>, a \<open>TypeError\<close>, which the handler for
  \<open>(KeyError, ValueError)\<close> does not catch: for every candidate list, \<open>page=1\<close> alone
  ends in \<open>TypeError\<close>.
\<close>

theorem paginate_page_without_count_TypeError:
  "fst (paginate dec_int (Inr cs) [(''page'', [Some ''1''])]) = Inl TypeError"
  by (simp add: paginate_def pop_single_arg_def paginate_body_def seq_def py_int_def dec_int_def
      digit_val_def)

subsection \<open>Host link\<close>

text \<open>
  Claim C4. The host link should carry \<open>rt="core.rd-ep"\<close>. For every Registration with a
  base, \<open>get_host_link\<close> returns the Registration's href, one attribute pair per value per
  key of its parameters and its base, but the resource type it passes is the misspelt
  \<open>coire.rd-ep\<close>.
\<close>

theorem get_host_link_rt_misspelt:
  "get_host_link (r\<lparr>base := Some b\<rparr>) =
     Inr \<lparr>call_href = reg_href r,
          call_attr_pairs = concat (map (\<lambda>(k, values). map (Pair k) values) (registration_parameters r)),
          call_kwargs = [(''base'', Some b), (''rt'', Some ''coire.rd-ep'')]\<rparr>
   \<and> (''rt'', Some ''core.rd-ep'') \<notin> set [(''base'', Some b), (''rt'', Some ''coire.rd-ep'')]"
  by (simp add: get_host_link_def reg_href_def)

subsection \<open>Change notification\<close>

text \<open>
  Claim C5, as stated, fails: of two subscribers, the first raising, the second is never
  invoked (the log holds only the first one's entry).
\<close>

theorem updated_state_failure_stops_counterexample:
  "updated_state [subscriber True 0, subscriber False 1] [] = (Some (OtherError ''subscriber failed''), [0])"
  by (simp add: subscriber_def)

text \<open>
  Claim C5, amended. Subscribers run in the order of their registration; the first one that
  raises ends the notification: its exception is the result, the state is as that
  subscriber left it, and the subscribers after it are not invoked (the result does not
  depend on them).
\<close>

theorem updated_state_stops_at_first_failure:
  "updated_state pre w = (None, wa) \<Longrightarrow> cb wa = (Some e, wb)
   \<Longrightarrow> updated_state (pre @ cb # post) w = (Some e, wb)"
proof (induction pre arbitrary: w)
  case Nil
  then show ?case by simp
next
  case (Cons c cs)
  obtain x w' where cw: "c w = (x, w')" by (cases "c w")
  show ?case
  proof (cases x)
    case None
    with Cons.prems cw have "updated_state cs w' = (None, wa)" by simp
    from Cons.IH [OF this Cons.prems(2)] None cw show ?thesis by simp
  next
    case (Some e')
    with Cons.prems cw show ?thesis by simp
  qed
qed

theorem updated_state_stops_at_first_failure_witness:
  "updated_state ([subscriber False 0] @ subscriber True 1 # [subscriber False 2]) [] =
     (Some (OtherError ''subscriber failed''), [0, 1])"
proof -
  have a: "updated_state [subscriber False 0] [] = (None, [0])"
    by (simp add: subscriber_def)
  have b: "subscriber True 1 [0] = (Some (OtherError ''subscriber failed''), [0, 1])"
    by (simp add: subscriber_def)
  show ?thesis
    using updated_state_stops_at_first_failure
      [where pre = "[subscriber False 0]" and cb = "subscriber True 1" and post = "[subscriber False 2]",
       OF a b]
    by simp
qed

subsection \<open>Based links\<close>






subsection \<open>The delete callback\<close>




subsection \<open>Parameters with several values\<close>

text \<open>
  Claim C10. A single-valued parameter with two values should fail with BadRequest
  ("Multiple values"). The state is indeed left as it was, but the exception is
  \<open>NameError\<close>: \<open>pop_single_arg\<close> raises through the unbound name \<open>BadRequest\<close>. This
  holds for \<open>ep\<close> and \<open>d\<close> in \<open>initialize_endpoint\<close>, \<open>lt\<close> and \<open>base\<close> in
  \<open>update_params\<close>, \<open>page\<close> and \<open>count\<close> in \<open>_paginate\<close>.
\<close>

theorem multiple_values_NameError:
  "initialize_endpoint dec_int now (Some uri) [(''ep'', [Some ''a'', Some ''b''])] s = (Inl NameError, s)
   \<and> initialize_endpoint dec_int now (Some uri) [(''ep'', [Some ''a'']), (''d'', [Some ''x'', Some ''y''])] s
       = (Inl NameError, s)
   \<and> update_params dec_int cb now (Some uri) [(''lt'', [Some ''60'', Some ''120''])] False (r, w)
       = (Some NameError, r, w)
   \<and> update_params dec_int cb now (Some uri) [(''base'', [Some ''coap://a'', Some ''coap://b''])] False (r, w)
       = (Some NameError, r, w)
   \<and> fst (paginate dec_int (Inr cs) [(''page'', [Some ''0'', Some ''1'']), (''count'', [Some ''2''])])
       = Inl NameError
   \<and> fst (paginate dec_int (Inr cs) [(''count'', [Some ''2'', Some ''3''])]) = Inl NameError"
  by (simp add: initialize_endpoint_def pop_single_arg_def update_params_def update_params_check_def
      update_params_parse_def seq_def paginate_def)

subsection \<open>Updating parameters\<close>

lemma apply_lt_spec:
  "apply_lt set_lt (r, c) = (r', c')
   \<Longrightarrow> r' = r\<lparr>lt := lt r'\<rparr> \<and> c' = (c \<or> lt r' \<noteq> lt r)"
  by (auto simp: apply_lt_def split: if_splits option.splits)

lemma apply_base_spec:
  "apply_base is_initial set_base (r, c) = (None, r', c') \<Longrightarrow> is_initial \<longrightarrow> c
   \<Longrightarrow> r' = r\<lparr>base := base r', base_is_explicit := base_is_explicit r'\<rparr>
       \<and> c' = (c \<or> base r' \<noteq> base r) \<and> (base r' \<noteq> base r \<longrightarrow> base_is_explicit r')"
  by (auto simp: apply_base_def split: if_splits)

lemma apply_network_base_spec:
  "apply_network_base is_initial nb (r, c) = (None, r', c') \<Longrightarrow> is_initial \<longrightarrow> c
   \<Longrightarrow> r' = r\<lparr>base := base r'\<rparr> \<and> c' = (c \<or> base r' \<noteq> base r)
       \<and> (base_is_explicit r \<longrightarrow> base r' = base r)"
  by (auto simp: apply_network_base_def split: if_splits)

lemma apply_parameters_spec:
  "apply_parameters q (r, c) = (r', c')
   \<Longrightarrow> r' = r\<lparr>registration_parameters := registration_parameters r'\<rparr>
       \<and> c' = (c \<or> (\<exists>(k, v) \<in> set q. Some v \<noteq> map_of (registration_parameters r) k))"
  by (auto simp: apply_parameters_def split: if_splits)

lemma apply_base_errors: "apply_base is_initial set_base rc = (Some e, r', c') \<Longrightarrow> e = AttributeError"
  by (cases rc) (auto simp: apply_base_def split: if_splits)

lemma apply_network_base_errors:
  "apply_network_base is_initial nb rc = (Some e, r', c') \<Longrightarrow> e = AttributeError \<or> e = UnboundLocalError"
  by (cases rc) (auto simp: apply_network_base_def split: if_splits)

lemma update_params_apply_errors:
  assumes "update_params_apply is_initial nb set_lt set_base q r = (Some e, r', c)"
  shows "e = AttributeError \<or> e = UnboundLocalError"
proof -
  obtain e2 r2 c2 where b: "apply_base is_initial set_base (apply_lt set_lt (r, is_initial)) = (e2, r2, c2)"
    by (cases "apply_base is_initial set_base (apply_lt set_lt (r, is_initial))")
  show ?thesis
  proof (cases e2)
    case (Some x)
    with assms b have "x = e" by (simp add: update_params_apply_def)
    with b Some apply_base_errors show ?thesis by blast
  next
    case None
    obtain e3 r3 c3 where n: "apply_network_base is_initial nb (r2, c2) = (e3, r3, c3)"
      by (cases "apply_network_base is_initial nb (r2, c2)")
    show ?thesis
    proof (cases e3)
      case (Some x)
      with assms b None n have "x = e" by (simp add: update_params_apply_def)
      with n Some apply_network_base_errors show ?thesis by blast
    next
      case n3: None
      with assms b None n show ?thesis
        by (simp add: update_params_apply_def split: prod.splits)
    qed
  qed
qed

lemma update_params_apply_steps:
  assumes "update_params_apply is_initial nb set_lt set_base q r = (None, r', c)"
  obtains r1 c1 r2 c2 r3 c3 where
    "apply_lt set_lt (r, is_initial) = (r1, c1)"
    "apply_base is_initial set_base (r1, c1) = (None, r2, c2)"
    "apply_network_base is_initial nb (r2, c2) = (None, r3, c3)"
    "apply_parameters q (r3, c3) = (r', c)"
proof -
  obtain r1 c1 where l: "apply_lt set_lt (r, is_initial) = (r1, c1)"
    by (cases "apply_lt set_lt (r, is_initial)")
  obtain e2 r2 c2 where b: "apply_base is_initial set_base (r1, c1) = (e2, r2, c2)"
    by (cases "apply_base is_initial set_base (r1, c1)")
  from assms l b have e2: "e2 = None"
    by (cases e2) (simp_all add: update_params_apply_def)
  obtain e3 r3 c3 where n: "apply_network_base is_initial nb (r2, c2) = (e3, r3, c3)"
    by (cases "apply_network_base is_initial nb (r2, c2)")
  from assms l b e2 n have e3: "e3 = None"
    by (cases e3) (simp_all add: update_params_apply_def)
  from assms l b e2 n e3 have "apply_parameters q (r3, c3) = (r', c)"
    by (cases "apply_parameters q (r3, c3)") (simp add: update_params_apply_def)
  with l b e2 n e3 that show ?thesis by blast
qed

lemma refresh_timeout_errors: "refresh_timeout now r = Inl e \<Longrightarrow> e = AttributeError"
  by (auto simp: refresh_timeout_def split: option.splits)

text \<open>
  Claim C6. Whenever \<open>update_params\<close> ends in BadRequest, the Registration (lifetime,
  base, explicitness of the base, parameters, links, timer) and the subscribers' state are
  exactly as before the call. The four checks that raise BadRequest all come before the
  first assignment. (The notification callback runs after the assignments; it is assumed
  not to raise this BadRequest itself.)
\<close>

theorem update_params_BadRequest_untouched:
  assumes "update_params toint cb now network_remote params is_initial (r, w) = (Some (BadRequest m), r', w')"
      and "\<forall>v. fst (cb v) \<noteq> Some (BadRequest m)"
  shows "r' = r \<and> w' = w"
proof (cases "update_params_check network_remote params is_initial r")
  case (Inl e)
  with assms(1) show ?thesis by (simp add: update_params_def)
next
  case chk: (Inr nb)
  show ?thesis
  proof (cases "update_params_parse toint params")
    case (Inl e)
    with chk assms(1) show ?thesis by (simp add: update_params_def)
  next
    case (Inr t)
    obtain set_lt set_base q where t: "t = (set_lt, set_base, q)" by (cases t)
    obtain e1 r1 c1 where ap: "update_params_apply is_initial nb set_lt set_base q r = (e1, r1, c1)"
      by (cases "update_params_apply is_initial nb set_lt set_base q r")
    show ?thesis
    proof (cases e1)
      case (Some e)
      with chk Inr t ap assms(1) have "e = BadRequest m" by (simp add: update_params_def)
      with update_params_apply_errors [of is_initial nb set_lt set_base q r e r1 c1] ap Some
      show ?thesis by auto
    next
      case None
      show ?thesis
      proof (cases "if is_initial then Inr (set_timeout now r1) else refresh_timeout now r1")
        case (Inl e)
        with chk Inr t ap None assms(1) have em: "e = BadRequest m" by (simp add: update_params_def)
        from Inl have "e = AttributeError"
          by (cases is_initial) (auto dest: refresh_timeout_errors)
        with em show ?thesis by simp
      next
        case tm: (Inr r2)
        show ?thesis
        proof (cases c1)
          case True
          obtain e3 w3 where cbw: "cb w = (e3, w3)" by (cases "cb w")
          with chk Inr t ap None tm True assms(1) have "e3 = Some (BadRequest m)"
            by (simp add: update_params_def)
          with cbw assms(2) show ?thesis by (metis fst_conv)
        next
          case False
          with chk Inr t ap None tm assms(1) show ?thesis by (simp add: update_params_def)
        qed
      qed
    qed
  qed
qed

theorem update_params_BadRequest_untouched_witness:
  "update_params dec_int (subscriber False 7) 100 None [(''lt'', [Some ''60''])] False (reg_example, [])
     = (Some (BadRequest ''explicit base required''), reg_example, [])
   \<and> (\<forall>v. fst (subscriber False 7 v) \<noteq> Some (BadRequest ''explicit base required''))"
proof -
  have a: "update_params dec_int (subscriber False 7) 100 None [(''lt'', [Some ''60''])] False (reg_example, [])
     = (Some (BadRequest ''explicit base required''), reg_example, [])"
    by (simp add: update_params_def update_params_check_def reg_example_def)
  have b: "\<forall>v. fst (subscriber False 7 v) \<noteq> Some (BadRequest ''explicit base required'')"
    by (simp add: subscriber_def)
  from update_params_BadRequest_untouched [OF a b] a b show ?thesis by simp
qed

lemma set_alist_delete: "set (AList.delete k al) = {p \<in> set al. fst p \<noteq> k}"
  by (auto simp: AList.delete_eq)

lemma absent_key_filter: "k \<notin> fst ` set al \<Longrightarrow> {p \<in> set al. fst p \<noteq> k} = set al"
  by force

lemma pop_single_arg_query:
  "pop_single_arg q name = (Inr v, q') \<Longrightarrow> set q' = {p \<in> set q. fst p \<noteq> name}"
  by (auto simp: pop_single_arg_def set_alist_delete map_of_eq_None_iff split: option.splits if_splits list.splits)

lemma update_params_parse_rest:
  assumes "update_params_parse toint params = Inr (set_lt, set_base, q)"
  shows "set q = {p \<in> set params. fst p \<noteq> ''lt'' \<and> fst p \<noteq> ''base''}"
proof -
  obtain q1 where q1: "set q1 = {p \<in> set params. fst p \<noteq> ''lt''}"
    and rest: "(if ''base'' \<in> set (map fst q1)
                then (case pop_single_arg q1 ''base'' of (Inl e, q) \<Rightarrow> Inl e | (Inr v, q) \<Rightarrow> Inr (set_lt, v, q))
                else Inr (set_lt, None, q1)) = Inr (set_lt, set_base, q)"
  proof (cases "''lt'' \<in> set (map fst params)")
    case True
    obtain x qa where p: "pop_single_arg params ''lt'' = (x, qa)" by (cases "pop_single_arg params ''lt''")
    with True assms obtain v where x: "x = Inr v"
      by (cases x) (auto simp: update_params_parse_def seq_def)
    from p x have "set qa = {p \<in> set params. fst p \<noteq> ''lt''}" by (simp add: pop_single_arg_query)
    moreover from True assms p x have "(if ''base'' \<in> set (map fst qa)
                then (case pop_single_arg qa ''base'' of (Inl e, q) \<Rightarrow> Inl e | (Inr v, q) \<Rightarrow> Inr (set_lt, v, q))
                else Inr (set_lt, None, qa)) = Inr (set_lt, set_base, q)"
      by (auto simp: update_params_parse_def seq_def split: sum.splits error.splits if_splits prod.splits)
    ultimately show ?thesis using that by blast
  next
    case False
    then have "set params = {p \<in> set params. fst p \<noteq> ''lt''}" by (simp add: absent_key_filter)
    moreover from False assms have "(if ''base'' \<in> set (map fst params)
                then (case pop_single_arg params ''base'' of (Inl e, q) \<Rightarrow> Inl e | (Inr v, q) \<Rightarrow> Inr (set_lt, v, q))
                else Inr (set_lt, None, params)) = Inr (set_lt, set_base, q)"
      by (auto simp: update_params_parse_def seq_def split: sum.splits error.splits if_splits prod.splits)
    ultimately show ?thesis using that by blast
  qed
  show ?thesis
  proof (cases "''base'' \<in> set (map fst q1)")
    case True
    with rest obtain v where "pop_single_arg q1 ''base'' = (Inr v, q)"
      by (auto split: prod.splits sum.splits)
    then have "set q = {p \<in> set q1. fst p \<noteq> ''base''}" by (rule pop_single_arg_query)
    with q1 show ?thesis by auto
  next
    case False
    with rest have "q = q1" by simp
    with q1 False absent_key_filter [of "''base''" q1] show ?thesis by auto
  qed
qed

lemma update_params_apply_change:
  assumes "update_params_apply is_initial nb set_lt set_base q r = (None, r', c)"
  shows "c = (is_initial \<or> lt r' \<noteq> lt r \<or> base r' \<noteq> base r
              \<or> (\<exists>(k, v) \<in> set q. Some v \<noteq> map_of (registration_parameters r) k))"
proof -
  from assms obtain r1 c1 r2 c2 r3 c3 where
    l: "apply_lt set_lt (r, is_initial) = (r1, c1)" and
    b: "apply_base is_initial set_base (r1, c1) = (None, r2, c2)" and
    n: "apply_network_base is_initial nb (r2, c2) = (None, r3, c3)" and
    p: "apply_parameters q (r3, c3) = (r', c)"
    by (rule update_params_apply_steps)
  from apply_lt_spec [OF l] have l1: "r1 = r\<lparr>lt := lt r1\<rparr>" and l2: "c1 = (is_initial \<or> lt r1 \<noteq> lt r)"
    by simp_all
  from l2 have i1: "is_initial \<longrightarrow> c1" by simp
  from apply_base_spec [OF b i1] have b1: "r2 = r1\<lparr>base := base r2, base_is_explicit := base_is_explicit r2\<rparr>"
    and b2: "c2 = (c1 \<or> base r2 \<noteq> base r1)" and b3: "base r2 \<noteq> base r1 \<longrightarrow> base_is_explicit r2"
    by simp_all
  from b2 i1 have i2: "is_initial \<longrightarrow> c2" by simp
  from apply_network_base_spec [OF n i2] have n1: "r3 = r2\<lparr>base := base r3\<rparr>"
    and n2: "c3 = (c2 \<or> base r3 \<noteq> base r2)" and n3: "base_is_explicit r2 \<longrightarrow> base r3 = base r2"
    by simp_all
  from apply_parameters_spec [OF p] have p1: "r' = r3\<lparr>registration_parameters := registration_parameters r'\<rparr>"
    and p2: "c = (c3 \<or> (\<exists>(k, v) \<in> set q. Some v \<noteq> map_of (registration_parameters r3) k))"
    by simp_all
  have f1: "lt r' = lt r1" "base r' = base r3" "base r1 = base r"
    "registration_parameters r3 = registration_parameters r"
    by (subst p1, subst n1, subst b1, simp)
       (subst p1, simp, subst l1, simp, subst n1, subst b1, subst l1, simp)
  from l2 b2 b3 n2 n3 p2 f1 show ?thesis by auto
qed

lemma update_params_apply_keeps:
  assumes "update_params_apply is_initial nb set_lt set_base q r = (None, r', c)"
  shows "path r' = path r \<and> delete_cb r' = delete_cb r \<and> links r' = links r"
proof -
  from assms obtain r1 c1 r2 c2 r3 c3 where
    l: "apply_lt set_lt (r, is_initial) = (r1, c1)" and
    b: "apply_base is_initial set_base (r1, c1) = (None, r2, c2)" and
    n: "apply_network_base is_initial nb (r2, c2) = (None, r3, c3)" and
    p: "apply_parameters q (r3, c3) = (r', c)"
    by (rule update_params_apply_steps)
  from l have "path r1 = path r \<and> delete_cb r1 = delete_cb r \<and> links r1 = links r"
    by (auto simp: apply_lt_def split: if_splits option.splits)
  moreover from b have "path r2 = path r1 \<and> delete_cb r2 = delete_cb r1 \<and> links r2 = links r1"
    by (auto simp: apply_base_def split: if_splits)
  moreover from n have "path r3 = path r2 \<and> delete_cb r3 = delete_cb r2 \<and> links r3 = links r2"
    by (auto simp: apply_network_base_def split: if_splits)
  moreover from p have "path r' = path r3 \<and> delete_cb r' = delete_cb r3 \<and> links r' = links r3"
    by (auto simp: apply_parameters_def split: if_splits)
  ultimately show ?thesis by simp
qed

lemma timeout_armed:
  assumes "(if is_initial then Inr (set_timeout now r1) else refresh_timeout now r1) = Inr r2"
  shows "r2 = r1\<lparr>timeout := Some \<lparr>created = now, delay = lt r1 + 15, cancelled = False\<rparr>\<rparr>"
  using assms
  by (auto simp: set_timeout_def refresh_timeout_def grace_period_def split: if_splits option.splits)

text \<open>
  Claim C7, amended. After a successful \<open>update_params\<close> the timer is a fresh task started
  now with delay \<open>lt + 15\<close> (the new \<open>lt\<close>), and the notification callback has run
  exactly when the call is the initial one, or the lifetime or the base of the Registration
  has changed, or some supplied parameter other than \<open>lt\<close> and \<open>base\<close> carries a value
  list different from the stored one. The base counts also when it is recomputed from the
  origin: see the counterexample below, and \<open>unchanged_lt_no_notification\<close>,
  \<open>changed_lt_notifies\<close> for calls that supply only \<open>lt\<close>.
\<close>

theorem update_params_notifies_iff_changed:
  assumes "update_params toint cb now network_remote params is_initial (r, w) = (None, r', w')"
  shows "timeout r' = Some \<lparr>created = now, delay = lt r' + 15, cancelled = False\<rparr>
       \<and> (if is_initial \<or> lt r' \<noteq> lt r \<or> base r' \<noteq> base r
              \<or> (\<exists>(k, v) \<in> set params. k \<noteq> ''lt'' \<and> k \<noteq> ''base''
                      \<and> Some v \<noteq> map_of (registration_parameters r) k)
           then cb w = (None, w') else w' = w)"
proof -
  from assms obtain nb where chk: "update_params_check network_remote params is_initial r = Inr nb"
    by (cases "update_params_check network_remote params is_initial r") (simp_all add: update_params_def)
  from assms chk obtain set_lt set_base q where prs: "update_params_parse toint params = Inr (set_lt, set_base, q)"
    by (cases "update_params_parse toint params") (auto simp: update_params_def)
  obtain e1 r1 c1 where ap: "update_params_apply is_initial nb set_lt set_base q r = (e1, r1, c1)"
    by (cases "update_params_apply is_initial nb set_lt set_base q r")
  from assms chk prs ap have e1: "e1 = None"
    by (cases e1) (simp_all add: update_params_def)
  from assms chk prs ap e1 obtain r2 where
    tm: "(if is_initial then Inr (set_timeout now r1) else refresh_timeout now r1) = Inr r2"
    by (cases "if is_initial then Inr (set_timeout now r1) else refresh_timeout now r1")
       (simp_all add: update_params_def)
  from timeout_armed [OF tm]
  have r2: "r2 = r1\<lparr>timeout := Some \<lparr>created = now, delay = lt r1 + 15, cancelled = False\<rparr>\<rparr>" .
  from assms chk prs ap e1 tm have fin: "(if c1 then (case cb w of (e, v) \<Rightarrow> (e, r2, v)) else (None, r2, w)) = (None, r', w')"
    by (simp add: update_params_def)
  have rr: "r' = r2"
    using fin by (cases c1; cases "cb w") (auto split: if_splits)
  have cbw: "if c1 then cb w = (None, w') else w' = w"
    using fin by (cases c1; cases "cb w") (auto split: if_splits)
  from ap e1 update_params_apply_change [of is_initial nb set_lt set_base q r r1 c1]
  have c1: "c1 = (is_initial \<or> lt r1 \<noteq> lt r \<or> base r1 \<noteq> base r
              \<or> (\<exists>(k, v) \<in> set q. Some v \<noteq> map_of (registration_parameters r) k))" by simp
  have qs: "(\<exists>(k, v) \<in> set q. Some v \<noteq> map_of (registration_parameters r) k)
          = (\<exists>(k, v) \<in> set params. k \<noteq> ''lt'' \<and> k \<noteq> ''base'' \<and> Some v \<noteq> map_of (registration_parameters r) k)"
    using update_params_parse_rest [OF prs] by auto
  from rr r2 have f: "lt r' = lt r1" "base r' = base r1"
    "timeout r' = Some \<lparr>created = now, delay = lt r1 + 15, cancelled = False\<rparr>" by simp_all
  from cbw c1 qs f show ?thesis by simp
qed

theorem update_params_notifies_iff_changed_witness:
  "update_params dec_int (subscriber False 7) 100 (Some ''coap://node1'') [(''lt'', [Some ''120''])] False
     (reg_example, []) =
   (None, reg_example\<lparr>lt := 120, timeout := Some \<lparr>created = 100, delay = 135, cancelled = False\<rparr>\<rparr>, [7])
   \<and> subscriber False 7 [] = (None, [7])"
proof -
  have a: "update_params dec_int (subscriber False 7) 100 (Some ''coap://node1'') [(''lt'', [Some ''120''])] False
     (reg_example, []) =
   (None, reg_example\<lparr>lt := 120, timeout := Some \<lparr>created = 100, delay = 135, cancelled = False\<rparr>\<rparr>, [7])"
    by (simp add: update_params_def update_params_check_def update_params_parse_def
        update_params_apply_def apply_lt_def apply_base_def apply_network_base_def
        apply_parameters_def pop_single_arg_def py_int_def dec_int_def digit_val_def seq_def
        refresh_timeout_def set_timeout_def grace_period_def reg_example_def subscriber_def)
  from update_params_notifies_iff_changed [OF a] a show ?thesis
    by (simp add: reg_example_def)
qed

text \<open>
  Claim C7, as stated, fails: a non-initial call that supplies only an \<open>lt\<close> equal to the
  current one does notify when the Registration has no explicit base and the request
  comes from another origin URI than the stored base.
\<close>

theorem unchanged_lt_notifies_when_origin_moved_counterexample:
  "update_params dec_int (subscriber False 7) 100 (Some ''coap://node2'') [(''lt'', [Some ''90000''])] False
     (reg_example, []) =
   (None, reg_example\<lparr>base := Some ''coap://node2'',
                       timeout := Some \<lparr>created = 100, delay = 90015, cancelled = False\<rparr>\<rparr>, [7])"
  by (simp add: update_params_def update_params_check_def update_params_parse_def
        update_params_apply_def apply_lt_def apply_base_def apply_network_base_def
        apply_parameters_def pop_single_arg_def py_int_def dec_int_def digit_val_def seq_def
        refresh_timeout_def set_timeout_def grace_period_def reg_example_def subscriber_def)

lemma unchanged_lt_no_notification:
  assumes "toint s = Some (lt r)" and "base r = Some b" and "timeout r = Some t"
      and "base_is_explicit r \<or> network_remote = Some b"
  shows "update_params toint cb now network_remote [(''lt'', [Some s])] False (r, w) =
           (None, r\<lparr>timeout := Some \<lparr>created = now, delay = lt r + 15, cancelled = False\<rparr>\<rparr>, w)"
  using assms
  by (auto simp: update_params_def update_params_check_def update_params_parse_def
        update_params_apply_def apply_lt_def apply_base_def apply_network_base_def
        apply_parameters_def pop_single_arg_def py_int_def seq_def
        refresh_timeout_def set_timeout_def grace_period_def)

lemma changed_lt_notifies:
  assumes "toint s = Some n" and "n \<noteq> lt r" and "base r = Some b" and "timeout r = Some t"
      and "base_is_explicit r \<or> network_remote = Some b"
  shows "update_params toint cb now network_remote [(''lt'', [Some s])] False (r, w) =
           (fst (cb w), r\<lparr>lt := n, timeout := Some \<lparr>created = now, delay = n + 15, cancelled = False\<rparr>\<rparr>, snd (cb w))"
  using assms
  by (auto simp: update_params_def update_params_check_def update_params_parse_def
        update_params_apply_def apply_lt_def apply_base_def apply_network_base_def
        apply_parameters_def pop_single_arg_def py_int_def seq_def
        refresh_timeout_def set_timeout_def grace_period_def split: prod.splits)

subsection \<open>Registering an endpoint again\<close>

lemma rd_inv_key:
  assumes "rd_inv s" and "map_of (by_key s) k = Some i"
  shows "i < next_ref s \<and> (\<exists>r. heap s i = Some r \<and> snd (delete_cb r) = k
           \<and> path r = entity_prefix @ fst (delete_cb r) \<and> map_of (by_path s) (fst (delete_cb r)) = Some i)"
proof -
  from assms(2) have m: "(k, i) \<in> set (by_key s)" by (rule map_of_SomeD)
  from assms(1) have "\<forall>(k, i) \<in> set (by_key s). map_of (by_key s) k = Some i \<longrightarrow>
         i < next_ref s \<and>
         (case heap s i of
            None \<Rightarrow> False
          | Some r \<Rightarrow> snd (delete_cb r) = k \<and> path r = entity_prefix @ fst (delete_cb r)
                      \<and> map_of (by_path s) (fst (delete_cb r)) = Some i)"
    by (simp add: rd_inv_def)
  from bspec [OF this m] assms(2) show ?thesis
    by (cases "heap s i") simp_all
qed

lemma rd_inv_path:
  assumes "rd_inv s" and "map_of (by_path s) p = Some i"
  shows "i < next_ref s \<and> (\<exists>r. heap s i = Some r \<and> fst (delete_cb r) = p
           \<and> map_of (by_key s) (snd (delete_cb r)) = Some i)"
proof -
  from assms(2) have m: "(p, i) \<in> set (by_path s)" by (rule map_of_SomeD)
  from assms(1) have "\<forall>(p, i) \<in> set (by_path s). map_of (by_path s) p = Some i \<longrightarrow>
         i < next_ref s \<and>
         (case heap s i of
            None \<Rightarrow> False
          | Some r \<Rightarrow> fst (delete_cb r) = p \<and> map_of (by_key s) (snd (delete_cb r)) = Some i)"
    by (simp add: rd_inv_def)
  from bspec [OF this m] assms(2) show ?thesis
    by (cases "heap s i") simp_all
qed

lemma registration_delete_live:
  assumes "heap s old = Some r" and "delete_cb r = (p, k)"
      and "map_of (by_path s) p = Some i" and "map_of (by_key s) k = Some j"
      and "registration_delete old s = (None, s1)"
  shows "\<exists>t w1. timeout r = Some t \<and> updated_state (updated_state_cb s) (world s) = (None, w1)
           \<and> s1 = s\<lparr>heap := (heap s)(old \<mapsto> r\<lparr>timeout := Some (t\<lparr>cancelled := True\<rparr>)\<rparr>),
                    world := w1,
                    by_path := AList.delete p (by_path s), by_key := AList.delete k (by_key s)\<rparr>"
proof -
  from assms(1,5) obtain t where t: "timeout r = Some t"
    by (cases "timeout r") (auto simp: registration_delete_def)
  obtain e w1 where u: "updated_state (updated_state_cb s) (world s) = (e, w1)"
    by (cases "updated_state (updated_state_cb s) (world s)")
  from assms(1,5) t u have e: "e = None"
    by (cases e) (auto simp: registration_delete_def Let_def)
  from assms t u e show ?thesis
    by (auto simp: registration_delete_def Let_def delete_callback_def)
qed

lemma update_params_initial:
  assumes "update_params toint cb now network_remote q True (r, w) = (None, r', w')"
  shows "path r' = path r \<and> delete_cb r' = delete_cb r \<and> links r' = links r \<and> cb w = (None, w')"
proof -
  from assms obtain nb where chk: "update_params_check network_remote q True r = Inr nb"
    by (cases "update_params_check network_remote q True r") (simp_all add: update_params_def)
  from assms chk obtain set_lt set_base q' where prs: "update_params_parse toint q = Inr (set_lt, set_base, q')"
    by (cases "update_params_parse toint q") (auto simp: update_params_def)
  obtain e1 r1 c1 where ap: "update_params_apply True nb set_lt set_base q' r = (e1, r1, c1)"
    by (cases "update_params_apply True nb set_lt set_base q' r")
  from assms chk prs ap have e1: "e1 = None"
    by (cases e1) (simp_all add: update_params_def)
  from ap e1 update_params_apply_change [of True nb set_lt set_base q' r r1 c1] have c1: "c1" by simp
  from update_params_apply_keeps [OF ap [unfolded e1]] have k: "path r1 = path r" "delete_cb r1 = delete_cb r" "links r1 = links r"
    by simp_all
  from assms chk prs ap e1 c1 have "(case cb w of (e, v) \<Rightarrow> (e, set_timeout now r1, v)) = (None, r', w')"
    by (simp add: update_params_def)
  then have "cb w = (None, w')" and "r' = set_timeout now r1"
    by (cases "cb w"; simp)+
  with k show ?thesis by (simp add: set_timeout_def)
qed

lemma initialize_endpoint_existing:
  assumes "pop_single_arg params ''ep'' = (Inr (Some e), q1)"
      and "pop_single_arg q1 ''d'' = (Inr d, q2)"
      and "map_of (by_key s) (Some e, d) = Some old"
      and "heap s old = Some r_old"
      and "registration_delete old s = (None, s1)"
      and "update_params toint (updated_state (updated_state_cb s1)) now network_remote q2 True
             (registration_new (filter (\<lambda>(k, v). k \<in> {''ep'', ''d''}) params)
                (entity_prefix @ drop (length entity_prefix) (path r_old))
                (drop (length entity_prefix) (path r_old), (Some e, d)), world s1) = (x, r, w)"
  shows "initialize_endpoint toint now network_remote params s =
     (case x of
        Some err \<Rightarrow> (Inl err, s1\<lparr>heap := (heap s1)(next_ref s1 \<mapsto> r), next_ref := Suc (next_ref s1), world := w\<rparr>)
      | None \<Rightarrow> (Inr (next_ref s1),
           s1\<lparr>heap := (heap s1)(next_ref s1 \<mapsto> r), next_ref := Suc (next_ref s1), world := w,
              by_key := AList.update (Some e, d) (next_ref s1) (by_key s1),
              by_path := AList.update (drop (length entity_prefix) (path r_old)) (next_ref s1) (by_path s1)\<rparr>))"
  using assms by (cases x) (simp_all add: initialize_endpoint_def Let_def)

text \<open>
  Claim C8. In a store that satisfies \<open>rd_inv\<close>, let \<open>initialize_endpoint\<close> be called with
  parameters whose key \<open>(ep, d)\<close> is registered (to object \<open>old\<close>) and let it return the new
  Registration \<open>new\<close>. Then the new Registration has the path of the old one; the old
  Registration's \<open>delete\<close> has run on the store as it was before the call, without raising,
  and left a store \<open>s1\<close> in which neither the key nor the path was occupied (it ran before
  the new entries were written); its timer is cancelled; the subscribers have been
  notified once by that delete and once more by the new Registration; and in the final
  store the new Registration is found exactly at that key and that path, while the old one
  is found nowhere.
\<close>

theorem reregistration_replaces:
  assumes inv: "rd_inv s"
      and ep: "pop_single_arg params ''ep'' = (Inr ep, q1)"
      and d: "pop_single_arg q1 ''d'' = (Inr d, q2)"
      and old: "map_of (by_key s) (ep, d) = Some old"
      and ok: "initialize_endpoint toint now network_remote params s = (Inr new, s')"
  shows "\<exists>r_old r_new t p s1.
           heap s old = Some r_old \<and> heap s' new = Some r_new \<and> new \<noteq> old
         \<and> path r_old = entity_prefix @ p \<and> path r_new = path r_old
         \<and> registration_delete old s = (None, s1)
         \<and> map_of (by_key s1) (ep, d) = None \<and> map_of (by_path s1) p = None
         \<and> timeout r_old = Some t \<and> heap s' old = Some (r_old\<lparr>timeout := Some (t\<lparr>cancelled := True\<rparr>)\<rparr>)
         \<and> updated_state (updated_state_cb s) (world s) = (None, world s1)
         \<and> updated_state (updated_state_cb s) (world s1) = (None, world s')
         \<and> (\<forall>k. (map_of (by_key s') k = Some new) = (k = (ep, d)))
         \<and> (\<forall>q. (map_of (by_path s') q = Some new) = (q = p))
         \<and> (\<forall>k. map_of (by_key s') k \<noteq> Some old)
         \<and> (\<forall>q. map_of (by_path s') q \<noteq> Some old)"
proof -
  from rd_inv_key [OF inv old] obtain r_old where
    lo: "old < next_ref s" and ho: "heap s old = Some r_old" and dk: "snd (delete_cb r_old) = (ep, d)"
    and po: "path r_old = entity_prefix @ fst (delete_cb r_old)"
    and bp: "map_of (by_path s) (fst (delete_cb r_old)) = Some old" by blast
  define p where "p = fst (delete_cb r_old)"
  have dcb: "delete_cb r_old = (p, (ep, d))" using dk p_def by (cases "delete_cb r_old") simp
  have tail: "drop (length entity_prefix) (path r_old) = p" using po p_def by simp
  obtain e1 s1 where del: "registration_delete old s = (e1, s1)" by (cases "registration_delete old s")
  obtain e where epn: "ep = Some e"
    using ok ep by (cases ep) (simp_all add: initialize_endpoint_def Let_def)
  have e1: "e1 = None"
    using ok ep d old ho del epn by (cases e1) (simp_all add: initialize_endpoint_def Let_def)
  from registration_delete_live [OF ho dcb _ old del [unfolded e1]] bp p_def
  obtain t w1 where t: "timeout r_old = Some t"
    and u1: "updated_state (updated_state_cb s) (world s) = (None, w1)"
    and s1: "s1 = s\<lparr>heap := (heap s)(old \<mapsto> r_old\<lparr>timeout := Some (t\<lparr>cancelled := True\<rparr>)\<rparr>),
                    world := w1,
                    by_path := AList.delete p (by_path s), by_key := AList.delete (ep, d) (by_key s)\<rparr>"
    by auto
  let ?r0 = "registration_new (filter (\<lambda>(k, v). k \<in> {''ep'', ''d''}) params) (entity_prefix @ p) (p, (ep, d))"
  obtain e2 r_new w2 where up:
    "update_params toint (updated_state (updated_state_cb s1)) now network_remote q2 True (?r0, world s1)
       = (e2, r_new, w2)"
    by (cases "update_params toint (updated_state (updated_state_cb s1)) now network_remote q2 True (?r0, world s1)")
  note unf = initialize_endpoint_existing [OF ep [unfolded epn] d old [unfolded epn] ho del [unfolded e1]
      up [unfolded epn tail [symmetric]]]
  have e2: "e2 = None"
    using ok unf by (cases e2) simp_all
  have res: "new = next_ref s1 \<and>
     s' = s1\<lparr>heap := (heap s1)(next_ref s1 \<mapsto> r_new), next_ref := Suc (next_ref s1), world := w2,
             by_key := AList.update (ep, d) (next_ref s1) (by_key s1),
             by_path := AList.update p (next_ref s1) (by_path s1)\<rparr>"
    using ok unf e2 epn tail by auto
  from update_params_initial [OF up [unfolded e2]]
  have pn: "path r_new = entity_prefix @ p"
    and u2: "updated_state (updated_state_cb s1) (world s1) = (None, w2)"
    by (simp_all add: registration_new_def)
  have nr: "next_ref s1 = next_ref s" and cb1: "updated_state_cb s1 = updated_state_cb s"
    and w1: "world s1 = w1" using s1 by simp_all
  have neq: "new \<noteq> old" using res nr lo by simp
  have noold_k: "\<And>k. k \<noteq> (ep, d) \<Longrightarrow> map_of (by_key s) k \<noteq> Some old"
  proof
    fix k assume "k \<noteq> (ep, d)" and "map_of (by_key s) k = Some old"
    with rd_inv_key [OF inv this(2)] ho dk show False by auto
  qed
  have noold_p: "\<And>q. q \<noteq> p \<Longrightarrow> map_of (by_path s) q \<noteq> Some old"
  proof
    fix q assume "q \<noteq> p" and "map_of (by_path s) q = Some old"
    with rd_inv_path [OF inv this(2)] ho p_def show False by auto
  qed
  have nonew_k: "\<And>k. map_of (by_key s) k \<noteq> Some new"
  proof
    fix k assume "map_of (by_key s) k = Some new"
    with rd_inv_key [OF inv this] res nr show False by simp
  qed
  have nonew_p: "\<And>q. map_of (by_path s) q \<noteq> Some new"
  proof
    fix q assume "map_of (by_path s) q = Some new"
    with rd_inv_path [OF inv this] res nr show False by simp
  qed
  have bk': "map_of (by_key s') = ((map_of (by_key s))((ep, d) := None))((ep, d) \<mapsto> new)"
    using res s1 by (simp add: update_conv' delete_conv')
  have bp': "map_of (by_path s') = ((map_of (by_path s))(p := None))(p \<mapsto> new)"
    using res s1 by (simp add: update_conv' delete_conv')
  have h1: "heap s' new = Some r_new" using res by simp
  have h2: "heap s' old = Some (r_old\<lparr>timeout := Some (t\<lparr>cancelled := True\<rparr>)\<rparr>)"
    using res s1 neq nr by simp
  have k1: "map_of (by_key s1) (ep, d) = None" using s1 by (simp add: delete_conv')
  have k2: "map_of (by_path s1) p = None" using s1 by (simp add: delete_conv')
  have ws: "world s' = w2" using res by simp
  have c1: "\<forall>k. (map_of (by_key s') k = Some new) = (k = (ep, d))"
    using bk' nonew_k by auto
  have c2: "\<forall>q. (map_of (by_path s') q = Some new) = (q = p)"
    using bp' nonew_p by auto
  have c3: "\<forall>k. map_of (by_key s') k \<noteq> Some old"
    using bk' noold_k neq by auto
  have c4: "\<forall>q. map_of (by_path s') q \<noteq> Some old"
    using bp' noold_p neq by auto
  from ho h1 neq po p_def pn del e1 k1 k2 t h2 u1 u2 cb1 w1 ws c1 c2 c3 c4
  show ?thesis by (intro exI [of _ r_old] exI [of _ r_new] exI [of _ t] exI [of _ p] exI [of _ s1]) simp
qed

theorem reregistration_replaces_witness:
  "rd_inv rd_once
   \<and> map_of (by_key rd_once) (Some ''a'', None) = Some 0
   \<and> initialize_endpoint dec_int 5 (Some ''coap://node1'') [(''ep'', [Some ''a''])] rd_once = (Inr 1, rd_twice)
   \<and> (\<forall>k. (map_of (by_key rd_twice) k = Some 1) = (k = (Some ''a'', None)))
   \<and> (\<forall>k. map_of (by_key rd_twice) k \<noteq> Some 0)
   \<and> (\<forall>q. map_of (by_path rd_twice) q \<noteq> Some 0)"
proof -
  have inv: "rd_inv rd_once"
    unfolding rd_once_def by code_simp
  have ep: "pop_single_arg [(''ep'', [Some ''a''])] ''ep'' = (Inr (Some ''a''), [])"
    by (simp add: pop_single_arg_def)
  have d: "pop_single_arg [] ''d'' = (Inr None, [])"
    by (simp add: pop_single_arg_def)
  have old: "map_of (by_key rd_once) (Some ''a'', None) = Some 0"
    unfolding rd_once_def by code_simp
  have "fst (initialize_endpoint dec_int 5 (Some ''coap://node1'') [(''ep'', [Some ''a''])] rd_once) = Inr 1"
    unfolding rd_once_def by code_simp
  then have ok: "initialize_endpoint dec_int 5 (Some ''coap://node1'') [(''ep'', [Some ''a''])] rd_once
                   = (Inr 1, rd_twice)"
    by (simp add: rd_twice_def prod_eq_iff)
  from reregistration_replaces [OF inv ep d old ok] inv old ok show ?thesis by blast
qed

subsection \<open>The lookup filter\<close>

lemma filter_e_Inr:
  "filter_e p xs = Inr ys \<Longrightarrow> subseq ys xs \<and> (\<forall>x. (x \<in> set ys) = (x \<in> set xs \<and> p x = Inr True))"
proof (induction xs arbitrary: ys)
  case Nil
  then show ?case by simp
next
  case (Cons a xs)
  from Cons.prems obtain b zs where pa: "p a = Inr b" and f: "filter_e p xs = Inr zs"
    and ys: "ys = (if b then a # zs else zs)"
    by (auto split: sum.splits)
  from Cons.IH [OF f] have s: "subseq zs xs" and m: "\<forall>x. (x \<in> set zs) = (x \<in> set xs \<and> p x = Inr True)"
    by simp_all
  show ?case
  proof (cases b)
    case True
    with ys s m pa show ?thesis by auto
  next
    case False
    with ys s m pa show ?thesis by auto
  qed
qed

lemma all_e_True: "(all_e p xs = Inr True) = (\<forall>x\<in>set xs. p x = Inr True)"
  by (induction xs) (auto split: sum.splits)

lemma value_step_eq:
  "lookup_value_step L v =
     (lookup_value_step (L'\<lparr>search_key := search_key L\<rparr>) v)\<lparr>stages := stages L @ [kind (search_key L)]\<rparr>"
  by (simp add: lookup_value_step_def Let_def kind_def)

lemma value_step_key: "search_key (lookup_value_step L v) = search_key L"
  by (simp add: lookup_value_step_def Let_def)

lemma value_step_stages: "stages (lookup_value_step L v) = stages L @ [kind (search_key L)]"
  by (simp add: lookup_value_step_def Let_def kind_def)

lemma foldl_value_step:
  "search_key (foldl lookup_value_step L vs) = search_key L
   \<and> stages (foldl lookup_value_step L vs) = stages L @ replicate (length vs) (kind (search_key L))"
proof (induction vs rule: rev_induct)
  case Nil
  show ?case by simp
next
  case (snoc v vs)
  then show ?case
    by (simp add: value_step_key value_step_stages replicate_append_same)
qed

lemma foldl_value_step_last:
  assumes "vs \<noteq> []"
  shows "foldl lookup_value_step L vs =
     (lookup_value_step (L'\<lparr>search_key := search_key L\<rparr>) (last vs))
       \<lparr>stages := stages L @ replicate (length vs) (kind (search_key L))\<rparr>"
proof -
  from assms obtain ws w where vs: "vs = ws @ [w]" by (metis rev_exhaust)
  let ?M = "foldl lookup_value_step L ws"
  from foldl_value_step [of L ws] have k: "search_key ?M = search_key L"
    and s: "stages ?M = stages L @ replicate (length ws) (kind (search_key L))" by simp_all
  have "foldl lookup_value_step L vs = lookup_value_step ?M w" by (simp add: vs)
  also have "\<dots> = (lookup_value_step (L'\<lparr>search_key := search_key ?M\<rparr>) w)\<lparr>stages := stages ?M @ [kind (search_key ?M)]\<rparr>"
    by (rule value_step_eq)
  finally show ?thesis by (simp add: k s vs replicate_append_same)
qed

lemma lookup_loop_snoc: "lookup_loop (qs @ [kv]) = lookup_key_step (lookup_loop qs) kv"
  by (simp add: lookup_loop_def)

lemma key_step_stages:
  "stages (lookup_key_step L (k, vs)) =
     (if k \<in> {''page'', ''count''} then stages L else stages L @ replicate (length vs) (kind k))"
  using foldl_value_step [of "L\<lparr>search_key := k\<rparr>" vs]
  by (simp add: lookup_key_step_def Let_def)

lemma loop_stages:
  "st \<in> set (stages (lookup_loop query))
   \<Longrightarrow> \<exists>(k, vs) \<in> set query. k \<notin> {''page'', ''count''} \<and> st = kind k"
proof (induction query rule: rev_induct)
  case Nil
  then show ?case by (simp add: lookup_loop_def)
next
  case (snoc kv qs)
  obtain k vs where kv: "kv = (k, vs)" by (cases kv)
  from snoc.prems have "st \<in> set (stages (lookup_loop qs)) \<or> (k \<notin> {''page'', ''count''} \<and> st = kind k)"
    by (auto simp: lookup_loop_snoc kv key_step_stages split: if_splits)
  with snoc.IH kv show ?case by auto
qed

lemma loop_last:
  assumes "k \<notin> {''page'', ''count''}" and "vs \<noteq> []"
  shows "lookup_loop (qs @ [(k, vs)]) =
           (lookup_loop [(k, [last vs])])\<lparr>stages := stages (lookup_loop (qs @ [(k, vs)]))\<rparr>
         \<and> kind k \<in> set (stages (lookup_loop (qs @ [(k, vs)])))
         \<and> stages (lookup_loop [(k, [last vs])]) = [kind k]"
proof -
  let ?L0 = "\<lparr>search_key = [], search_value = None, matches = equals_search_value, stages = []\<rparr>"
  let ?M = "(lookup_loop qs)\<lparr>search_key := k\<rparr>"
  have one: "lookup_loop [(k, [last vs])] = lookup_value_step (?L0\<lparr>search_key := k\<rparr>) (last vs)"
    using assms(1) by (simp add: lookup_loop_def lookup_key_step_def)
  have "lookup_loop (qs @ [(k, vs)]) = foldl lookup_value_step ?M vs"
    using assms(1) by (simp add: lookup_loop_snoc lookup_key_step_def)
  also from foldl_value_step_last [OF assms(2), of ?M ?L0]
  have "\<dots> = (lookup_value_step (?L0\<lparr>search_key := k\<rparr>) (last vs))
                 \<lparr>stages := stages (lookup_loop qs) @ replicate (length vs) (kind k)\<rparr>"
    by simp
  finally have eq: "lookup_loop (qs @ [(k, vs)]) =
      (lookup_loop [(k, [last vs])])\<lparr>stages := stages (lookup_loop qs) @ replicate (length vs) (kind k)\<rparr>"
    by (simp add: one)
  then have st: "stages (lookup_loop (qs @ [(k, vs)])) = stages (lookup_loop qs) @ replicate (length vs) (kind k)"
    by simp
  from assms(2) have "kind k \<in> set (replicate (length vs) (kind k))" by simp
  with st have mem: "kind k \<in> set (stages (lookup_loop (qs @ [(k, vs)])))" by simp
  have s1: "stages (lookup_loop [(k, [last vs])]) = [kind k]"
    by (simp add: one value_step_stages)
  from eq st mem s1 show ?thesis by simp
qed

lemma ep_condition_indep: "ep_condition join (L\<lparr>stages := x\<rparr>) = ep_condition join L"
  by (rule ext, rule ext) (simp add: ep_condition_def Let_def split: stage.split)

lemma res_condition_indep: "res_condition (L\<lparr>stages := x\<rparr>) = res_condition L"
  by (rule ext, rule ext) (simp add: res_condition_def Let_def split: stage.split prod.split)

lemma pair_matches_cond:
  assumes "k \<notin> {''page'', ''count''}"
  shows "pair_matches cond k v c = (cond (lookup_loop [(k, [v])]) (kind k) c = Inr True)"
proof -
  have s1: "stages (lookup_loop [(k, [v])]) = [kind k]"
    using loop_last [OF assms, of "[v]" "[]"] by simp
  show ?thesis
    by (auto simp: pair_matches_def lookup_filter_def Let_def s1 split: sum.splits if_splits)
qed

lemma lookup_filter_member:
  assumes "lookup_filter cond query cands = Inr cs"
  shows "subseq cs cands
       \<and> (\<forall>c. (c \<in> set cs) = (c \<in> set cands \<and> (\<forall>st \<in> set (stages (lookup_loop query)). cond (lookup_loop query) st c = Inr True)))"
  using filter_e_Inr [OF assms [unfolded lookup_filter_def Let_def]]
  by (simp add: all_e_True)

lemma loop_stages_set:
  "set (stages (lookup_loop query)) =
     {kind k | k vs. (k, vs) \<in> set query \<and> k \<notin> {''page'', ''count''} \<and> vs \<noteq> []}"
proof (induction query rule: rev_induct)
  case Nil
  show ?case by (simp add: lookup_loop_def)
next
  case (snoc kv qs)
  obtain k vs where kv: "kv = (k, vs)" by (cases kv)
  have "set (stages (lookup_loop (qs @ [kv]))) =
          set (stages (lookup_loop qs)) \<union> (if k \<notin> {''page'', ''count''} \<and> vs \<noteq> [] then {kind k} else {})"
    by (simp add: lookup_loop_snoc kv key_step_stages set_replicate_conv_if)
  also have "\<dots> = {kind k' | k' vs'. (k', vs') \<in> set qs \<and> k' \<notin> {''page'', ''count''} \<and> vs' \<noteq> []}
                  \<union> (if k \<notin> {''page'', ''count''} \<and> vs \<noteq> [] then {kind k} else {})"
    by (simp only: snoc.IH)
  also have "\<dots> = {kind k' | k' vs'. (k', vs') \<in> set (qs @ [kv]) \<and> k' \<notin> {''page'', ''count''} \<and> vs' \<noteq> []}"
    unfolding kv by auto
  finally show ?case .
qed

text \<open>
  What the filter computes. When the last key of the query is a filter key \<open>k\<close> with values
  \<open>vs\<close>, every stage, whichever key and value it was made for, tests the candidate with
  the key \<open>k\<close> and the value \<open>last vs\<close>: the survivors are the candidates that pass, for the
  kind of stage of each filter key, the condition of the one-pair query \<open>k = last vs\<close>.
\<close>

lemma lookup_filter_last_pair:
  assumes indep: "\<And>L x. cond (L\<lparr>stages := x\<rparr>) = cond L"
      and k: "k \<notin> {''page'', ''count''}" and vs: "vs \<noteq> []"
      and res: "lookup_filter cond (qs @ [(k, vs)]) cands = Inr cs"
  shows "(c \<in> set cs) =
           (c \<in> set cands \<and>
            (\<forall>(k', vs') \<in> set (qs @ [(k, vs)]). k' \<notin> {''page'', ''count''} \<and> vs' \<noteq> [] \<longrightarrow>
                 cond (lookup_loop [(k, [last vs])]) (kind k') c = Inr True))"
proof -
  let ?q = "qs @ [(k, vs)]"
  let ?L = "lookup_loop ?q"
  from lookup_filter_member [OF res]
  have mem: "(c \<in> set cs) = (c \<in> set cands \<and> (\<forall>st \<in> set (stages ?L). cond ?L st c = Inr True))"
    by simp
  from loop_last [OF k vs, of qs]
  have eq: "?L = (lookup_loop [(k, [last vs])])\<lparr>stages := stages ?L\<rparr>" by simp
  have condeq: "cond ?L = cond (lookup_loop [(k, [last vs])])"
    by (subst eq) (rule indep)
  have "(\<forall>st \<in> set (stages ?L). cond ?L st c = Inr True) =
        (\<forall>(k', vs') \<in> set ?q. k' \<notin> {''page'', ''count''} \<and> vs' \<noteq> [] \<longrightarrow>
                 cond (lookup_loop [(k, [last vs])]) (kind k') c = Inr True)"
    unfolding condeq loop_stages_set by blast
  with mem show ?thesis by simp
qed

lemma ep_filter_last_pair:
  assumes "k \<notin> {''page'', ''count''}" and "vs \<noteq> []"
      and "ep_filter join (qs @ [(k, vs)]) eps = Inr cs"
  shows "(c \<in> set cs) =
           (c \<in> set eps \<and>
            (\<forall>(k', vs') \<in> set (qs @ [(k, vs)]). k' \<notin> {''page'', ''count''} \<and> vs' \<noteq> [] \<longrightarrow>
                 ep_condition join (lookup_loop [(k, [last vs])]) (kind k') c = Inr True))"
  using lookup_filter_last_pair [of "ep_condition join", OF ep_condition_indep assms(1,2)] assms(3)
  by (simp add: ep_filter_def)

lemma res_filter_last_pair:
  assumes "k \<notin> {''page'', ''count''}" and "vs \<noteq> []"
      and "res_candidates join eps = Inr ecs"
      and "res_filter join (qs @ [(k, vs)]) eps = Inr cs"
  shows "(c \<in> set cs) =
           (c \<in> set ecs \<and>
            (\<forall>(k', vs') \<in> set (qs @ [(k, vs)]). k' \<notin> {''page'', ''count''} \<and> vs' \<noteq> [] \<longrightarrow>
                 res_condition (lookup_loop [(k, [last vs])]) (kind k') c = Inr True))"
  using lookup_filter_last_pair [of res_condition, OF res_condition_indep assms(1,2)] assms(3,4)
  by (simp add: res_filter_def seq_def)

text \<open>
  Claim C1. Across keys the results should be AND'd: a candidate survives only if every
  key has a matching value. In the code the conditions of the generator expressions read
  \<open>search_key\<close>, \<open>search_value\<close> and \<open>matches\<close> only when \<open>_paginate\<close> forces the chain,
  after the loop, so every stage tests the last key and value. With the query
  \<open>x=b&ep=node1\<close> both lookups keep endpoint \<open>node1\<close> (and its link), whose \<open>x\<close> is \<open>a\<close>
  and which does not match \<open>x=b\<close>.
\<close>

theorem lookup_filter_ignores_earlier_key:
  "ep_filter join_root [(''x'', [Some ''b'']), (''ep'', [Some ''node1''])] [ep_temp, ep_press] = Inr [ep_temp]
   \<and> \<not> pair_matches (ep_condition join_root) ''x'' (Some ''b'') ep_temp
   \<and> res_filter join_root [(''x'', [Some ''b'']), (''ep'', [Some ''node1''])] [ep_temp, ep_press] =
         Inr [(ep_temp, \<lparr>href = ''coap://node1/a/b'',
                          attr_pairs = [(''rt'', Some ''temperature-v2 other''),
                                        (''anchor'', Some ''coap://node1/'')]\<rparr>)]
   \<and> \<not> pair_matches res_condition ''x'' (Some ''b'')
         (ep_temp, \<lparr>href = ''coap://node1/a/b'',
                     attr_pairs = [(''rt'', Some ''temperature-v2 other''),
                                   (''anchor'', Some ''coap://node1/'')]\<rparr>)"
  by code_simp

text \<open>
  Within one key the values are not OR'd either: each value adds a stage of its own, and
  of several values only the last one filters. An endpoint whose \<open>x\<close> is \<open>a\<close> has a
  matching value for the query \<open>x=a&x=b\<close> and is dropped; a trailing \<open>count\<close> makes the
  stage of \<open>rt\<close> look for an attribute named \<open>count\<close>.
\<close>

lemma values_of_one_key_not_ored:
  "spec_keeps (ep_condition join_root) [(''x'', [Some ''a'', Some ''b''])] ep_temp
   \<and> ep_filter join_root [(''x'', [Some ''a'', Some ''b''])] [ep_temp] = Inr []
   \<and> res_candidates join_root [ep_temp] =
         Inr [(ep_temp, \<lparr>href = ''coap://node1/a/b'',
                          attr_pairs = [(''rt'', Some ''temperature-v2 other''),
                                        (''anchor'', Some ''coap://node1/'')]\<rparr>)]
   \<and> spec_keeps res_condition [(''x'', [Some ''a'', Some ''b''])]
         (ep_temp, \<lparr>href = ''coap://node1/a/b'',
                     attr_pairs = [(''rt'', Some ''temperature-v2 other''),
                                   (''anchor'', Some ''coap://node1/'')]\<rparr>)
   \<and> res_filter join_root [(''x'', [Some ''a'', Some ''b''])] [ep_temp] = Inr []"
  by code_simp

lemma last_value_only:
  "ep_filter join_root [(''x'', [Some ''b'', Some ''a''])] [ep_temp, ep_press] = Inr [ep_temp]
   \<and> ep_filter join_root [(''x'', [Some ''a'', Some ''b''])] [ep_temp, ep_press] = Inr [ep_press]"
  by code_simp

lemma trailing_count_drops_matching_endpoint:
  "ep_filter join_root [(''rt'', [Some ''temp*''])] [ep_temp] = Inr [ep_temp]
   \<and> ep_filter join_root [(''rt'', [Some ''temp*'']), (''count'', [Some ''5''])] [ep_temp] = Inr []"
  by code_simp

subsection \<open>The invariant of the store\<close>

text \<open>
  \<open>rd_inv\<close> holds of the empty store and is kept by every call of
  \<open>initialize_endpoint\<close>, whatever its outcome; \<open>_new_pathtail\<close> never returns a path that
  is occupied.
\<close>

lemma new_pathtail_from_fresh: "map_of bp (new_pathtail_from i bp) = None"
proof (induction i bp rule: new_pathtail_from.induct)
  case (1 i bp)
  show ?case
  proof (cases "map_of bp [str_nat i, ''''] \<noteq> None")
    case True
    with "1.IH" show ?thesis by (subst new_pathtail_from.simps) simp
  next
    case False
    then show ?thesis by (subst new_pathtail_from.simps) simp
  qed
qed

lemma rd_inv_empty: "rd_inv (empty_rd w)"
  by (simp add: rd_inv_def empty_rd_def)

lemma rd_inv_iff:
  "rd_inv s =
     ((\<forall>k i. map_of (by_key s) k = Some i \<longrightarrow>
         i < next_ref s \<and> (\<exists>r. heap s i = Some r \<and> snd (delete_cb r) = k
           \<and> path r = entity_prefix @ fst (delete_cb r) \<and> map_of (by_path s) (fst (delete_cb r)) = Some i))
    \<and> (\<forall>p i. map_of (by_path s) p = Some i \<longrightarrow>
         i < next_ref s \<and> (\<exists>r. heap s i = Some r \<and> fst (delete_cb r) = p
           \<and> map_of (by_key s) (snd (delete_cb r)) = Some i)))"
proof
  assume inv: "rd_inv s"
  show "(\<forall>k i. map_of (by_key s) k = Some i \<longrightarrow>
         i < next_ref s \<and> (\<exists>r. heap s i = Some r \<and> snd (delete_cb r) = k
           \<and> path r = entity_prefix @ fst (delete_cb r) \<and> map_of (by_path s) (fst (delete_cb r)) = Some i))
    \<and> (\<forall>p i. map_of (by_path s) p = Some i \<longrightarrow>
         i < next_ref s \<and> (\<exists>r. heap s i = Some r \<and> fst (delete_cb r) = p
           \<and> map_of (by_key s) (snd (delete_cb r)) = Some i))"
    using rd_inv_key [OF inv] rd_inv_path [OF inv] by blast
next
  assume a: "(\<forall>k i. map_of (by_key s) k = Some i \<longrightarrow>
         i < next_ref s \<and> (\<exists>r. heap s i = Some r \<and> snd (delete_cb r) = k
           \<and> path r = entity_prefix @ fst (delete_cb r) \<and> map_of (by_path s) (fst (delete_cb r)) = Some i))
    \<and> (\<forall>p i. map_of (by_path s) p = Some i \<longrightarrow>
         i < next_ref s \<and> (\<exists>r. heap s i = Some r \<and> fst (delete_cb r) = p
           \<and> map_of (by_key s) (snd (delete_cb r)) = Some i))"
  show "rd_inv s"
    unfolding rd_inv_def
  proof (intro conjI ballI)
    fix x assume "x \<in> set (by_key s)"
    obtain k i where x: "x = (k, i)" by (cases x)
    show "case x of (k, i) \<Rightarrow> map_of (by_key s) k = Some i \<longrightarrow>
         i < next_ref s \<and>
         (case heap s i of
            None \<Rightarrow> False
          | Some r \<Rightarrow> snd (delete_cb r) = k \<and> path r = entity_prefix @ fst (delete_cb r)
                      \<and> map_of (by_path s) (fst (delete_cb r)) = Some i)"
    proof (simp only: x prod.case, rule impI)
      assume "map_of (by_key s) k = Some i"
      with a obtain r where "i < next_ref s" "heap s i = Some r" "snd (delete_cb r) = k"
        "path r = entity_prefix @ fst (delete_cb r)" "map_of (by_path s) (fst (delete_cb r)) = Some i"
        by blast
      then show "i < next_ref s \<and>
         (case heap s i of
            None \<Rightarrow> False
          | Some r \<Rightarrow> snd (delete_cb r) = k \<and> path r = entity_prefix @ fst (delete_cb r)
                      \<and> map_of (by_path s) (fst (delete_cb r)) = Some i)" by simp
    qed
  next
    fix x assume "x \<in> set (by_path s)"
    obtain p i where x: "x = (p, i)" by (cases x)
    show "case x of (p, i) \<Rightarrow> map_of (by_path s) p = Some i \<longrightarrow>
         i < next_ref s \<and>
         (case heap s i of
            None \<Rightarrow> False
          | Some r \<Rightarrow> fst (delete_cb r) = p \<and> map_of (by_key s) (snd (delete_cb r)) = Some i)"
    proof (simp only: x prod.case, rule impI)
      assume "map_of (by_path s) p = Some i"
      with a obtain r where "i < next_ref s" "heap s i = Some r" "fst (delete_cb r) = p"
        "map_of (by_key s) (snd (delete_cb r)) = Some i"
        by blast
      then show "i < next_ref s \<and>
         (case heap s i of
            None \<Rightarrow> False
          | Some r \<Rightarrow> fst (delete_cb r) = p \<and> map_of (by_key s) (snd (delete_cb r)) = Some i)" by simp
    qed
  qed
qed

lemma rd_inv_frame:
  assumes inv: "rd_inv s" and bk: "by_key s' = by_key s" and bp: "by_path s' = by_path s"
      and nr: "next_ref s \<le> next_ref s'"
      and hp: "\<And>i r. i < next_ref s \<Longrightarrow> heap s i = Some r
                 \<Longrightarrow> \<exists>r'. heap s' i = Some r' \<and> delete_cb r' = delete_cb r \<and> path r' = path r"
  shows "rd_inv s'"
  unfolding rd_inv_iff
proof (intro conjI allI impI)
  fix k i assume "map_of (by_key s') k = Some i"
  then have m: "map_of (by_key s) k = Some i" by (simp add: bk)
  from rd_inv_key [OF inv m] obtain r where i: "i < next_ref s" and h: "heap s i = Some r"
    and d: "snd (delete_cb r) = k" and p: "path r = entity_prefix @ fst (delete_cb r)"
    and q: "map_of (by_path s) (fst (delete_cb r)) = Some i" by blast
  from hp [OF i h] obtain r' where "heap s' i = Some r'" "delete_cb r' = delete_cb r" "path r' = path r"
    by blast
  with i nr d p q bp show "i < next_ref s'" and "\<exists>r. heap s' i = Some r \<and> snd (delete_cb r) = k
           \<and> path r = entity_prefix @ fst (delete_cb r) \<and> map_of (by_path s') (fst (delete_cb r)) = Some i"
    by simp_all
next
  fix p i assume "map_of (by_path s') p = Some i"
  then have m: "map_of (by_path s) p = Some i" by (simp add: bp)
  from rd_inv_path [OF inv m] obtain r where i: "i < next_ref s" and h: "heap s i = Some r"
    and d: "fst (delete_cb r) = p" and q: "map_of (by_key s) (snd (delete_cb r)) = Some i" by blast
  from hp [OF i h] obtain r' where "heap s' i = Some r'" "delete_cb r' = delete_cb r" "path r' = path r"
    by blast
  with i nr d q bk show "i < next_ref s'" and "\<exists>r. heap s' i = Some r \<and> fst (delete_cb r) = p
           \<and> map_of (by_key s') (snd (delete_cb r)) = Some i"
    by simp_all
qed

lemma rd_inv_remove:
  assumes inv: "rd_inv s" and m: "map_of (by_key s) k = Some i" and h: "heap s i = Some r"
      and d: "delete_cb r = (p, k)"
  shows "rd_inv (s\<lparr>by_path := AList.delete p (by_path s), by_key := AList.delete k (by_key s)\<rparr>)"
  unfolding rd_inv_iff
proof (intro conjI allI impI)
  from rd_inv_key [OF inv m] h d have pi: "map_of (by_path s) p = Some i" by simp
  let ?s = "s\<lparr>by_path := AList.delete p (by_path s), by_key := AList.delete k (by_key s)\<rparr>"
  {
    fix k' j assume "map_of (by_key ?s) k' = Some j"
    then have ne: "k' \<noteq> k" and mj: "map_of (by_key s) k' = Some j"
      by (auto simp: delete_conv' split: if_splits)
    from rd_inv_key [OF inv mj] obtain rj where j: "j < next_ref s" and hj: "heap s j = Some rj"
      and dj: "snd (delete_cb rj) = k'" and pj: "path rj = entity_prefix @ fst (delete_cb rj)"
      and qj: "map_of (by_path s) (fst (delete_cb rj)) = Some j" by blast
    have "fst (delete_cb rj) \<noteq> p"
    proof
      assume "fst (delete_cb rj) = p"
      with qj pi have "j = i" by simp
      with hj h have "rj = r" by simp
      with dj d ne show False by simp
    qed
    with j hj dj pj qj show "j < next_ref ?s" and "\<exists>r. heap ?s j = Some r \<and> snd (delete_cb r) = k'
           \<and> path r = entity_prefix @ fst (delete_cb r) \<and> map_of (by_path ?s) (fst (delete_cb r)) = Some j"
      by (simp_all add: delete_conv')
  }
  {
    fix p' j assume "map_of (by_path ?s) p' = Some j"
    then have ne: "p' \<noteq> p" and mj: "map_of (by_path s) p' = Some j"
      by (auto simp: delete_conv' split: if_splits)
    from rd_inv_path [OF inv mj] obtain rj where j: "j < next_ref s" and hj: "heap s j = Some rj"
      and dj: "fst (delete_cb rj) = p'" and qj: "map_of (by_key s) (snd (delete_cb rj)) = Some j" by blast
    have "snd (delete_cb rj) \<noteq> k"
    proof
      assume "snd (delete_cb rj) = k"
      with qj m have "j = i" by simp
      with hj h have "rj = r" by simp
      with dj d ne show False by simp
    qed
    with j hj dj qj show "j < next_ref ?s" and "\<exists>r. heap ?s j = Some r \<and> fst (delete_cb r) = p'
           \<and> map_of (by_key ?s) (snd (delete_cb r)) = Some j"
      by (simp_all add: delete_conv')
  }
qed

lemma rd_inv_install:
  assumes inv: "rd_inv s" and nk: "map_of (by_key s) k = None" and np: "map_of (by_path s) p = None"
      and d: "delete_cb r = (p, k)" and pr: "path r = entity_prefix @ p"
  shows "rd_inv (s\<lparr>heap := (heap s)(next_ref s \<mapsto> r), next_ref := Suc (next_ref s), world := w,
                   by_key := AList.update k (next_ref s) (by_key s),
                   by_path := AList.update p (next_ref s) (by_path s)\<rparr>)"
  unfolding rd_inv_iff
proof (intro conjI allI impI)
  let ?n = "next_ref s"
  let ?s = "s\<lparr>heap := (heap s)(?n \<mapsto> r), next_ref := Suc ?n, world := w,
               by_key := AList.update k ?n (by_key s), by_path := AList.update p ?n (by_path s)\<rparr>"
  {
    fix k' j assume a: "map_of (by_key ?s) k' = Some j"
    have "j < next_ref ?s \<and> (\<exists>r. heap ?s j = Some r \<and> snd (delete_cb r) = k'
           \<and> path r = entity_prefix @ fst (delete_cb r) \<and> map_of (by_path ?s) (fst (delete_cb r)) = Some j)"
    proof (cases "k' = k")
      case True
      with a have "j = ?n" by (simp add: update_conv')
      with True d pr show ?thesis by (simp add: update_conv')
    next
      case False
      with a have mj: "map_of (by_key s) k' = Some j" by (simp add: update_conv')
      from rd_inv_key [OF inv mj] obtain rj where j: "j < ?n" and hj: "heap s j = Some rj"
        and dj: "snd (delete_cb rj) = k'" and pj: "path rj = entity_prefix @ fst (delete_cb rj)"
        and qj: "map_of (by_path s) (fst (delete_cb rj)) = Some j" by blast
      from qj np have "fst (delete_cb rj) \<noteq> p" by auto
      with j hj dj pj qj show ?thesis by (simp add: update_conv')
    qed
    then show "j < next_ref ?s" and "\<exists>r. heap ?s j = Some r \<and> snd (delete_cb r) = k'
           \<and> path r = entity_prefix @ fst (delete_cb r) \<and> map_of (by_path ?s) (fst (delete_cb r)) = Some j"
      by simp_all
  }
  {
    fix p' j assume a: "map_of (by_path ?s) p' = Some j"
    have "j < next_ref ?s \<and> (\<exists>r. heap ?s j = Some r \<and> fst (delete_cb r) = p'
           \<and> map_of (by_key ?s) (snd (delete_cb r)) = Some j)"
    proof (cases "p' = p")
      case True
      with a have "j = ?n" by (simp add: update_conv')
      with True d show ?thesis by (simp add: update_conv')
    next
      case False
      with a have mj: "map_of (by_path s) p' = Some j" by (simp add: update_conv')
      from rd_inv_path [OF inv mj] obtain rj where j: "j < ?n" and hj: "heap s j = Some rj"
        and dj: "fst (delete_cb rj) = p'" and qj: "map_of (by_key s) (snd (delete_cb rj)) = Some j" by blast
      from qj nk have "snd (delete_cb rj) \<noteq> k" by auto
      with j hj dj qj show ?thesis by (simp add: update_conv')
    qed
    then show "j < next_ref ?s" and "\<exists>r. heap ?s j = Some r \<and> fst (delete_cb r) = p'
           \<and> map_of (by_key ?s) (snd (delete_cb r)) = Some j"
      by simp_all
  }
qed

lemma registration_delete_inv:
  assumes inv: "rd_inv s" and m: "map_of (by_key s) k = Some old"
      and del: "registration_delete old s = (e, s1)"
  shows "rd_inv s1"
proof -
  from rd_inv_key [OF inv m] obtain r where lo: "old < next_ref s" and h: "heap s old = Some r"
    and dk: "snd (delete_cb r) = k" and bp: "map_of (by_path s) (fst (delete_cb r)) = Some old" by blast
  define p where "p = fst (delete_cb r)"
  have dcb: "delete_cb r = (p, k)" using dk p_def by (cases "delete_cb r") simp
  show ?thesis
  proof (cases "timeout r")
    case None
    with del h have "s1 = s" by (simp add: registration_delete_def)
    with inv show ?thesis by simp
  next
    case (Some t)
    let ?r = "r\<lparr>timeout := Some (t\<lparr>cancelled := True\<rparr>)\<rparr>"
    obtain e' w where u: "updated_state (updated_state_cb s) (world s) = (e', w)"
      by (cases "updated_state (updated_state_cb s) (world s)")
    let ?st = "s\<lparr>heap := (heap s)(old \<mapsto> ?r), world := w\<rparr>"
    have inv_st: "rd_inv ?st"
    proof (rule rd_inv_frame [OF inv])
      fix i r0 assume "i < next_ref s" and "heap s i = Some r0"
      with h show "\<exists>r'. heap ?st i = Some r' \<and> delete_cb r' = delete_cb r0 \<and> path r' = path r0"
        by (cases "i = old") simp_all
    qed simp_all
    show ?thesis
    proof (cases e')
      case (Some x)
      with del h \<open>timeout r = Some t\<close> u have "s1 = ?st"
        by (simp add: registration_delete_def Let_def)
      with inv_st show ?thesis by simp
    next
      case None
      from bp p_def m have "delete_callback (p, k) ?st =
          (None, ?st\<lparr>by_path := AList.delete p (by_path ?st), by_key := AList.delete k (by_key ?st)\<rparr>)"
        by (simp add: delete_callback_def Let_def)
      with del h \<open>timeout r = Some t\<close> u None dcb
      have s1: "s1 = ?st\<lparr>by_path := AList.delete p (by_path ?st), by_key := AList.delete k (by_key ?st)\<rparr>"
        by (simp add: registration_delete_def Let_def)
      have "rd_inv (?st\<lparr>by_path := AList.delete p (by_path ?st), by_key := AList.delete k (by_key ?st)\<rparr>)"
      proof (rule rd_inv_remove [OF inv_st])
        show "map_of (by_key ?st) k = Some old" using m by simp
        show "heap ?st old = Some ?r" by simp
        show "delete_cb ?r = (p, k)" using dcb by simp
      qed
      with s1 show ?thesis by simp
    qed
  qed
qed

lemma construct_inv:
  assumes inv: "rd_inv s1" and nk: "map_of (by_key s1) k = None" and np: "map_of (by_path s1) p = None"
      and c: "(case update_params toint cb now network_remote q True
                      (registration_new sp (entity_prefix @ p) (p, k), world s1) of
                 (Some e, r, w) \<Rightarrow>
                   (Inl e, s1\<lparr>heap := (heap s1)(next_ref s1 \<mapsto> r), next_ref := Suc (next_ref s1), world := w\<rparr>)
               | (None, r, w) \<Rightarrow>
                   (Inr (next_ref s1),
                    s1\<lparr>heap := (heap s1)(next_ref s1 \<mapsto> r), next_ref := Suc (next_ref s1), world := w,
                       by_key := AList.update k (next_ref s1) (by_key s1),
                       by_path := AList.update p (next_ref s1) (by_path s1)\<rparr>)) = (res, s')"
  shows "rd_inv s'"
proof -
  obtain e2 r w where up: "update_params toint cb now network_remote q True
                      (registration_new sp (entity_prefix @ p) (p, k), world s1) = (e2, r, w)"
    by (cases "update_params toint cb now network_remote q True
                      (registration_new sp (entity_prefix @ p) (p, k), world s1)")
  show ?thesis
  proof (cases e2)
    case (Some x)
    with c up have s': "s' = s1\<lparr>heap := (heap s1)(next_ref s1 \<mapsto> r), next_ref := Suc (next_ref s1), world := w\<rparr>"
      by simp
    have "rd_inv (s1\<lparr>heap := (heap s1)(next_ref s1 \<mapsto> r), next_ref := Suc (next_ref s1), world := w\<rparr>)"
    proof (rule rd_inv_frame [OF inv])
      fix i r0 assume "i < next_ref s1" and "heap s1 i = Some r0"
      then show "\<exists>r'. heap (s1\<lparr>heap := (heap s1)(next_ref s1 \<mapsto> r), next_ref := Suc (next_ref s1), world := w\<rparr>) i = Some r'
                   \<and> delete_cb r' = delete_cb r0 \<and> path r' = path r0"
        by simp
    qed simp_all
    with s' show ?thesis by simp
  next
    case None
    with c up have s': "s' = s1\<lparr>heap := (heap s1)(next_ref s1 \<mapsto> r), next_ref := Suc (next_ref s1), world := w,
                       by_key := AList.update k (next_ref s1) (by_key s1),
                       by_path := AList.update p (next_ref s1) (by_path s1)\<rparr>"
      by simp
    from update_params_initial [OF up [unfolded None]]
    have "delete_cb r = (p, k)" and "path r = entity_prefix @ p"
      by (simp_all add: registration_new_def)
    from rd_inv_install [OF inv nk np this] s' show ?thesis by simp
  qed
qed

lemma initialize_endpoint_inv:
  assumes inv: "rd_inv s" and ie: "initialize_endpoint toint now network_remote params s = (res, s')"
  shows "rd_inv s'"
proof -
  obtain x q1 where ep: "pop_single_arg params ''ep'' = (x, q1)" by (cases "pop_single_arg params ''ep''")
  show ?thesis
  proof (cases x)
    case (Inl e)
    with ie ep inv show ?thesis by (simp add: initialize_endpoint_def)
  next
    case (Inr epv)
    show ?thesis
    proof (cases epv)
      case None
      with ie ep Inr inv show ?thesis by (simp add: initialize_endpoint_def)
    next
      case (Some en)
      obtain y q2 where d: "pop_single_arg q1 ''d'' = (y, q2)" by (cases "pop_single_arg q1 ''d''")
      show ?thesis
      proof (cases y)
        case (Inl e)
        with ie ep Inr Some d inv show ?thesis by (simp add: initialize_endpoint_def)
      next
        case dv: (Inr dv)
        let ?key = "(Some en, dv)"
        let ?sp = "filter (\<lambda>(k, v). k \<in> {''ep'', ''d''}) params"
        show ?thesis
        proof (cases "map_of (by_key s) ?key")
          case None
          have np: "map_of (by_path s) (new_pathtail s) = None"
            by (simp add: new_pathtail_def new_pathtail_from_fresh)
          from ie ep Inr Some d dv None
          have "(case update_params toint (updated_state (updated_state_cb s)) now network_remote q2 True
                      (registration_new ?sp (entity_prefix @ new_pathtail s) (new_pathtail s, ?key), world s) of
                 (Some e, r, w) \<Rightarrow>
                   (Inl e, s\<lparr>heap := (heap s)(next_ref s \<mapsto> r), next_ref := Suc (next_ref s), world := w\<rparr>)
               | (None, r, w) \<Rightarrow>
                   (Inr (next_ref s),
                    s\<lparr>heap := (heap s)(next_ref s \<mapsto> r), next_ref := Suc (next_ref s), world := w,
                       by_key := AList.update ?key (next_ref s) (by_key s),
                       by_path := AList.update (new_pathtail s) (next_ref s) (by_path s)\<rparr>)) = (res, s')"
            by (simp add: initialize_endpoint_def Let_def)
          from construct_inv [OF inv None np this] show ?thesis .
        next
          case old: (Some old)
          from rd_inv_key [OF inv old] obtain r_old where ho: "heap s old = Some r_old"
            and dk: "snd (delete_cb r_old) = ?key"
            and po: "path r_old = entity_prefix @ fst (delete_cb r_old)"
            and bp: "map_of (by_path s) (fst (delete_cb r_old)) = Some old" by blast
          define p where "p = fst (delete_cb r_old)"
          have dcb: "delete_cb r_old = (p, ?key)" using dk p_def by (cases "delete_cb r_old") simp
          have tail: "drop (length entity_prefix) (path r_old) = p" using po p_def by simp
          obtain e1 s1 where del: "registration_delete old s = (e1, s1)"
            by (cases "registration_delete old s")
          from registration_delete_inv [OF inv old del] have inv1: "rd_inv s1" .
          show ?thesis
          proof (cases e1)
            case (Some e)
            with ie ep Inr \<open>epv = Some en\<close> d dv old ho del have "s' = s1"
              by (simp add: initialize_endpoint_def Let_def)
            with inv1 show ?thesis by simp
          next
            case None
            from registration_delete_live [OF ho dcb _ old del [unfolded None]] bp p_def
            obtain t w1 where
              s1: "s1 = s\<lparr>heap := (heap s)(old \<mapsto> r_old\<lparr>timeout := Some (t\<lparr>cancelled := True\<rparr>)\<rparr>),
                    world := w1,
                    by_path := AList.delete p (by_path s), by_key := AList.delete ?key (by_key s)\<rparr>"
              by auto
            have nk: "map_of (by_key s1) ?key = None" using s1 by (simp add: delete_conv')
            have np: "map_of (by_path s1) p = None" using s1 by (simp add: delete_conv')
            from ie ep Inr \<open>epv = Some en\<close> d dv old ho del None tail
            have "(case update_params toint (updated_state (updated_state_cb s1)) now network_remote q2 True
                      (registration_new ?sp (entity_prefix @ p) (p, ?key), world s1) of
                 (Some e, r, w) \<Rightarrow>
                   (Inl e, s1\<lparr>heap := (heap s1)(next_ref s1 \<mapsto> r), next_ref := Suc (next_ref s1), world := w\<rparr>)
               | (None, r, w) \<Rightarrow>
                   (Inr (next_ref s1),
                    s1\<lparr>heap := (heap s1)(next_ref s1 \<mapsto> r), next_ref := Suc (next_ref s1), world := w,
                       by_key := AList.update ?key (next_ref s1) (by_key s1),
                       by_path := AList.update p (next_ref s1) (by_path s1)\<rparr>)) = (res, s')"
              by (simp add: initialize_endpoint_def Let_def)
            from construct_inv [OF inv1 nk np this] show ?thesis .
          qed
        qed
      qed
    qed
  qed
qed


end
